theory Spec2Isabelle
  imports Main
begin

section \<open>The board\<close>

text \<open>
  The enumeration \<open>CellValue\<close> of \<open>app.ts\<close>. Its members are the strings \<open>''\<close>, \<open>'X'\<close>
  and \<open>'O'\<close>; \<open>Empty\<close> is the only one JavaScript treats as false. The members
  \<open>X\<close> and \<open>O\<close> are written \<open>PlayerX\<close> and \<open>PlayerO\<close>, since \<open>O\<close> is the
  composition of relations in HOL.
\<close>

datatype CellValue = Empty | PlayerX | PlayerO

text \<open>The field \<open>winner\<close> of a \<open>GameState\<close>: one of the two symbols, or the string \<open>'DRAW'\<close>.\<close>

datatype Winner = Sym CellValue | DRAW

text \<open>
  The interface \<open>GameState\<close>. Its two optional fields are \<open>None\<close> where the object
  has no such property (or holds \<open>undefined\<close> there).
\<close>

record GameState =
  winnerPositions :: "(nat \<times> nat \<times> nat) option"
  winner :: "Winner option"
  finished :: bool

definition WINNER_POSITIONS :: "(nat \<times> nat \<times> nat) list" where
  "WINNER_POSITIONS =
     [(0, 1, 2), (3, 4, 5), (6, 7, 8),
      (0, 3, 6), (1, 4, 7), (2, 5, 8),
      (0, 4, 8), (2, 4, 6)]"

text \<open>
  The private field \<open>_state\<close> of a \<open>Board\<close>: an array of cells. The constructor's
  default and the board of the program's last lines have nine cells, and nothing in
  the class changes the length of such an array; the array type itself does not fix
  the length, so reads are modelled at every index: \<open>cellAt\<close> is \<open>this._state[i]\<close>,
  and \<open>None\<close> is the \<open>undefined\<close> that JavaScript gives beyond the end.
\<close>

type_synonym board = "CellValue list"

definition cellAt :: "board \<Rightarrow> nat \<Rightarrow> CellValue option" where
  "cellAt b i = (if i < length b then Some (b ! i) else None)"

text \<open>The default argument of the constructor: nine empty cells.\<close>

definition emptyBoard :: board where
  "emptyBoard = replicate 9 Empty"

definition isEmpty :: "board \<Rightarrow> bool" where
  "isEmpty b = list_all (\<lambda>cell. cell = Empty) b"

definition isFull :: "board \<Rightarrow> bool" where
  "isFull b = list_all (\<lambda>cell. cell \<noteq> Empty) b"

text \<open>
  \<open>insert\<close> throws two errors, told apart by their messages only; the constructors
  below name them after what they report. The position check comes first.
\<close>

datatype error = InvalidPosition | InvalidSymbol

text \<open>The condition \<open>if (this._state[position])\<close>: a symbol is true, \<open>''\<close> and \<open>undefined\<close> are false.\<close>

fun truthy :: "CellValue option \<Rightarrow> bool" where
  "truthy None = False"
| "truthy (Some Empty) = False"
| "truthy (Some PlayerX) = True"
| "truthy (Some PlayerO) = True"

text \<open>
  The assignment \<open>this._state[position] = symbol\<close>. Inside the array it replaces one
  cell. Beyond the end JavaScript grows the array and leaves holes in between; lists
  have no holes, so the model fills them with \<open>Empty\<close>. A board of nine cells never
  gets there, since \<open>insert\<close> has refused every position above 8 before.
\<close>

definition assign :: "board \<Rightarrow> nat \<Rightarrow> CellValue \<Rightarrow> board" where
  "assign b i v =
     (if i < length b then b[i := v]
      else b @ replicate (i - length b) Empty @ [v])"

text \<open>
  \<open>insert(symbol, position)\<close>, with the receiver as first argument. It mutates the
  receiver and returns a boolean: the model returns the boolean and the receiver's
  new state. This is \<open>insert\<close> at a whole-number position, which is all the search
  ever passes (the indices that \<open>getAvailableMoves\<close> returns); \<open>insert_number\<close> below
  is \<open>insert\<close> at any JavaScript number, and \<open>insert_number_whole\<close> shows that the
  two agree on the whole numbers.
\<close>

definition insert_board :: "board \<Rightarrow> CellValue \<Rightarrow> int \<Rightarrow> error + (bool \<times> board)" where
  "insert_board b symbol position =
     (if position < 0 \<or> position > 8 then Inl InvalidPosition
      else if symbol \<notin> set [PlayerO, PlayerX] then Inl InvalidSymbol
      else if truthy (cellAt b (nat position)) then Inr (False, b)
      else Inr (True, assign b (nat position) symbol))"








text \<open>
  \<open>getAvailableMoves\<close>: a \<open>reduce\<close> from the left over the cells and their indices,
  appending the index of each empty cell.
\<close>

definition getAvailableMoves :: "board \<Rightarrow> nat list" where
  "getAvailableMoves b =
     foldl (\<lambda>positions (currentCell, index).
              if currentCell = Empty then positions @ [index] else positions)
           [] (zip b [0..<length b])"

definition calculateGameState :: "board \<Rightarrow> nat \<Rightarrow> nat \<Rightarrow> nat \<Rightarrow> GameState" where
  "calculateGameState b position1 position2 position3 =
     (let value1 = cellAt b position1;
          value2 = cellAt b position2;
          value3 = cellAt b position3;
          fin = (value1 \<noteq> Some Empty \<and> value2 \<noteq> Some Empty \<and> value3 \<noteq> Some Empty
                 \<and> value1 = value2 \<and> value1 = value3)
      in if fin
         then \<lparr>winnerPositions = Some (position1, position2, position3),
               winner = map_option Sym value1, finished = True\<rparr>
         else \<lparr>winnerPositions = None, winner = None, finished = False\<rparr>)"

definition getFinishState :: "board \<Rightarrow> GameState" where
  "getFinishState b =
     (if isEmpty b then \<lparr>winnerPositions = None, winner = None, finished = False\<rparr>
      else if isFull b then \<lparr>winnerPositions = None, winner = Some DRAW, finished = True\<rparr>
      else (case find finished
                   (map (\<lambda>(p1, p2, p3). calculateGameState b p1 p2 p3) WINNER_POSITIONS) of
              Some anyWinner \<Rightarrow> anyWinner
            | None \<Rightarrow> \<lparr>winnerPositions = None, winner = None, finished = False\<rparr>))"


subsection \<open>Two notions the properties are stated with\<close>

text \<open>The number of occupied cells of a board.\<close>

definition occupied :: "board \<Rightarrow> nat" where
  "occupied b = length (filter (\<lambda>cell. cell \<noteq> Empty) b)"

text \<open>
  A winning line matches on a board of nine cells when its three cells are not empty
  and equal. This is the wording of the specification, kept apart from
  \<open>calculateGameState\<close>, which is the code's test.
\<close>

definition lineMatches :: "board \<Rightarrow> nat \<times> nat \<times> nat \<Rightarrow> bool" where
  "lineMatches b line =
     (case line of (p1, p2, p3) \<Rightarrow>
        b ! p1 \<noteq> Empty \<and> b ! p2 \<noteq> Empty \<and> b ! p3 \<noteq> Empty
        \<and> b ! p1 = b ! p2 \<and> b ! p1 = b ! p3)"

subsection \<open>Facts about the board that the search's termination rests on\<close>

lemma getAvailableMoves_filter:
  "getAvailableMoves b = filter (\<lambda>i. b ! i = Empty) [0..<length b]"
proof (induction b rule: rev_induct)
  case Nil
  show ?case by (simp add: getAvailableMoves_def)
next
  case (snoc x xs)
  have old: "filter (\<lambda>i. (xs @ [x]) ! i = Empty) [0..<length xs]
             = filter (\<lambda>i. xs ! i = Empty) [0..<length xs]"
    by (rule filter_cong [OF refl]) (simp add: nth_append)
  have "getAvailableMoves (xs @ [x])
        = getAvailableMoves xs @ (if x = Empty then [length xs] else [])"
    by (simp add: getAvailableMoves_def)
  also have "\<dots> = filter (\<lambda>i. (xs @ [x]) ! i = Empty) [0..<length (xs @ [x])]"
    by (simp add: snoc.IH old)
  finally show ?case .
qed

lemma available_iff:
  "index \<in> set (getAvailableMoves b) \<longleftrightarrow> index < length b \<and> b ! index = Empty"
  by (auto simp: getAvailableMoves_filter)

lemma length_available:
  "length (getAvailableMoves b) = length (filter (\<lambda>cell. cell = Empty) b)"
proof -
  have d: "distinct (getAvailableMoves b)"
    by (simp add: getAvailableMoves_filter)
  have "set (getAvailableMoves b) = {i. i < length b \<and> b ! i = Empty}"
    by (auto simp: available_iff)
  with distinct_card [OF d, symmetric] show ?thesis
    by (simp add: length_filter_conv_card)
qed

lemma length_filter_update:
  "i < length xs \<Longrightarrow> P (xs ! i) \<Longrightarrow> \<not> P v
     \<Longrightarrow> Suc (length (filter P (xs[i := v]))) = length (filter P xs)"
proof (induction xs arbitrary: i)
  case Nil
  then show ?case by simp
next
  case (Cons x xs)
  then show ?case by (cases i) auto
qed

lemma insert_board_available:
  assumes "index \<in> set (getAvailableMoves b)"
    and "insert_board b symbol (int index) = Inr (ok, nextBoard)"
  shows "ok \<and> nextBoard = b[index := symbol] \<and> symbol \<noteq> Empty \<and> index \<le> 8"
  using assms
  by (auto simp: insert_board_def available_iff cellAt_def assign_def split: if_splits)

lemma insert_board_fewer_moves:
  assumes "index \<in> set (getAvailableMoves b)"
    and "insert_board b symbol (int index) = Inr (ok, nextBoard)"
  shows "Suc (length (getAvailableMoves nextBoard)) = length (getAvailableMoves b)"
proof -
  from insert_board_available [OF assms]
  have nb: "nextBoard = b[index := symbol]" and sym: "symbol \<noteq> Empty" by simp_all
  from assms(1) have "index < length b" "b ! index = Empty"
    by (simp_all add: available_iff)
  then show ?thesis
    using length_filter_update [of index b "\<lambda>cell. cell = Empty" symbol] sym
    by (simp add: length_available nb)
qed

section \<open>The player\<close>

text \<open>
  What \<open>getBestMove\<close> returns and what the tally is keyed by: a JavaScript number.
  The scores and the move indices are whole numbers; \<open>NaN\<close> and \<open>undefined\<close> are the
  two other values the code can produce (\<open>Math.max\<close> of something that is not a
  number, a tally without the bucket asked for).
\<close>

datatype number = Number int | NaN | Undefined

fun math_max :: "number \<Rightarrow> number \<Rightarrow> number" where
  "math_max (Number a) (Number b) = Number (max a b)"
| "math_max _ _ = NaN"

fun math_min :: "number \<Rightarrow> number \<Rightarrow> number" where
  "math_min (Number a) (Number b) = Number (min a b)"
| "math_min _ _ = NaN"

text \<open>
  A value of the tally \<open>nodesMap\<close>, of type \<open>number | string\<close>: the index of the one
  move that reached the score, or the comma separated indices of several.
\<close>

datatype moves = Index nat | Joined string

definition digitChars :: string where
  "digitChars = ''0123456789''"

text \<open>A move index in a template literal: its decimal digits.\<close>

fun toString :: "nat \<Rightarrow> string" where
  "toString n =
     (if n < 10 then [digitChars ! n]
      else toString (n div 10) @ [digitChars ! (n mod 10)])"

declare toString.simps [simp del]

definition digitValue :: "char \<Rightarrow> nat option" where
  "digitValue c = map_of (zip digitChars [0, 1, 2, 3, 4, 5, 6, 7, 8, 9]) c"

text \<open>
  The unary \<open>+\<close> on a string. The empty string is 0 and a string of decimal digits
  is its value; every other string is \<open>NaN\<close> here (JavaScript also reads signs,
  blanks, exponents and hexadecimal numerals, none of which the tally ever holds).
\<close>

definition toNumber :: "string \<Rightarrow> number" where
  "toNumber s =
     (if s = [] then Number 0
      else if list_all (\<lambda>c. digitValue c \<noteq> None) s
      then Number (int (foldl (\<lambda>a c. 10 * a + the (digitValue c)) 0 s))
      else NaN)"

text \<open>\<open>s.split(sep)\<close> for a separator of one character; the result is never empty.\<close>

fun split :: "char \<Rightarrow> string \<Rightarrow> string list" where
  "split sep [] = [[]]"
| "split sep (c # cs) =
     (if c = sep then [] # split sep cs
      else (case split sep cs of
              first # rest \<Rightarrow> (c # first) # rest
            | [] \<Rightarrow> [[c]]))"

text \<open>A tally value inside a template literal.\<close>

fun render :: "moves \<Rightarrow> string" where
  "render (Index i) = toString i"
| "render (Joined s) = s"

record Player =
  maxDepth :: int
  nodesMap :: "number \<rightharpoonup> moves"

text \<open>The constructor; its default argument is \<open>-1\<close>.\<close>

definition newPlayer :: "int \<Rightarrow> Player" where
  "newPlayer d = \<lparr>maxDepth = d, nodesMap = Map.empty\<rparr>"

text \<open>
  The callback is a function of the caller with effects of its own. It is modelled
  as a transformer of the caller's state \<open>'w\<close>, which the search threads through and
  never reads; with \<open>'w\<close> a list and a callback that appends its argument, the final
  state is the log of the invocations.
\<close>

definition getBestMoveAndExecuteCallback ::
  "(number \<rightharpoonup> moves) \<Rightarrow> number \<Rightarrow> (number \<Rightarrow> 'w \<Rightarrow> 'w) \<Rightarrow> 'w \<Rightarrow> number \<times> 'w" where
  "getBestMoveAndExecuteCallback mvs best callback w =
     (let bestMovement = mvs best;
          returnValue =
            (case bestMovement of
               Some (Joined s) \<Rightarrow>
                 (case split CHR '','' s of first # _ \<Rightarrow> toNumber first | [] \<Rightarrow> NaN)
             | Some (Index i) \<Rightarrow> Number (int i)
             | None \<Rightarrow> Undefined)
      in (returnValue, callback returnValue w))"

text \<open>The value \<open>getBestMove\<close> returns at a leaf of the search.\<close>

definition heuristic :: "GameState \<Rightarrow> nat \<Rightarrow> number" where
  "heuristic state depth =
     (if winner state = Some (Sym PlayerX) then Number (100 - int depth)
      else if winner state = Some (Sym PlayerO) then Number (- 100 + int depth)
      else Number 0)"

text \<open>
  \<open>getBestMove\<close> and \<open>minimax\<close> call each other. Both take the player, whose tally
  they update, and the caller's state, and return the number together with both, or
  the error that \<open>insert\<close> threw. The depth is a count of plies from 0 upwards. A
  board is passed by value: \<open>minimax\<close> copies the array before it inserts, and the
  store model further below keeps the arrays apart to show that this is sound.
\<close>

function getBestMove ::
    "Player \<Rightarrow> board \<Rightarrow> bool \<Rightarrow> (number \<Rightarrow> 'w \<Rightarrow> 'w) \<Rightarrow> 'w \<Rightarrow> nat
       \<Rightarrow> error + (number \<times> Player \<times> 'w)"
  and minimax ::
    "Player \<Rightarrow> bool \<Rightarrow> board \<Rightarrow> (number \<Rightarrow> 'w \<Rightarrow> 'w) \<Rightarrow> 'w \<Rightarrow> nat
       \<Rightarrow> error + (number \<times> Player \<times> 'w)"
where
  "getBestMove p b maximizing callback w depth =
     (let p1 = (if depth = 0 then p\<lparr>nodesMap := Map.empty\<rparr> else p);
          state = getFinishState b
      in if finished state \<or> int depth = maxDepth p1
         then Inr (heuristic state depth, p1, w)
         else minimax p1 maximizing b callback w depth)"
| "minimax p maximizing b callback w depth =
     (let best0 = (if \<not> maximizing then Number 100 else Number (- 100));
          op = (if \<not> maximizing then math_min else math_max);
          cellValue = (if \<not> maximizing then PlayerO else PlayerX)
      in case fold
           (\<lambda>index acc.
              case acc of
                Inl e \<Rightarrow> Inl e
              | Inr (best, p1, w1) \<Rightarrow>
                  (case insert_board b cellValue (int index) of
                     Inl e \<Rightarrow> Inl e
                   | Inr (ok, nextBoard) \<Rightarrow>
                       (case getBestMove p1 nextBoard (\<not> maximizing) callback w1 (depth + 1) of
                          Inl e \<Rightarrow> Inl e
                        | Inr (nodeValue, p2, w2) \<Rightarrow>
                            Inr (op best nodeValue,
                                 (if depth = 0
                                  then p2\<lparr>nodesMap := (nodesMap p2)(nodeValue \<mapsto>
                                         (case nodesMap p2 nodeValue of
                                            Some mv \<Rightarrow> Joined (render mv @ '','' @ toString index)
                                          | None \<Rightarrow> Index index))\<rparr>
                                  else p2),
                                 w2))))
           (getAvailableMoves b) (Inr (best0, p, w)) of
        Inl e \<Rightarrow> Inl e
      | Inr (best, p1, w1) \<Rightarrow>
          if depth = 0
          then (case getBestMoveAndExecuteCallback (nodesMap p1) best callback w1 of
                  (returnValue, w2) \<Rightarrow> Inr (returnValue, p1, w2))
          else Inr (best, p1, w1))"
  by pat_completeness auto

termination
proof (relation "measure (\<lambda>x. case x of
            Inl (p, b, m, c, w, d) \<Rightarrow> 2 * length (getAvailableMoves b) + 1
          | Inr (p, m, b, c, w, d) \<Rightarrow> 2 * length (getAvailableMoves b))", goal_cases)
  case 1
  show ?case by simp
next
  case 2
  show ?case by simp
next
  case prems: 3
  from prems(4,5,6) show ?case
    by (auto dest: insert_board_fewer_moves)
qed


declare getBestMove.simps [simp del] minimax.simps [simp del]

section \<open>Notions derived from the search\<close>

text \<open>
  The score of a position as the recursion computes it, without the player, the tally
  and the callback: the same leaf test, the same loop over the available moves, the
  same running \<open>best\<close>. It is a device of the proofs: \<open>getBestMove_evaluate\<close> below
  shows that every call of \<open>getBestMove\<close> below the root returns this number and
  leaves the player and the caller's state as they were.
\<close>

function evaluate :: "int \<Rightarrow> board \<Rightarrow> bool \<Rightarrow> nat \<Rightarrow> error + number" where
  "evaluate md b maximizing depth =
     (let state = getFinishState b
      in if finished state \<or> int depth = md
         then Inr (heuristic state depth)
         else fold
           (\<lambda>index acc.
              case acc of
                Inl e \<Rightarrow> Inl e
              | Inr best \<Rightarrow>
                  (case insert_board b (if \<not> maximizing then PlayerO else PlayerX) (int index) of
                     Inl e \<Rightarrow> Inl e
                   | Inr (ok, nextBoard) \<Rightarrow>
                       (case evaluate md nextBoard (\<not> maximizing) (depth + 1) of
                          Inl e \<Rightarrow> Inl e
                        | Inr nodeValue \<Rightarrow>
                            Inr ((if \<not> maximizing then math_min else math_max) best nodeValue))))
           (getAvailableMoves b)
           (Inr (if \<not> maximizing then Number 100 else Number (- 100))))"
  by pat_completeness auto

termination
proof (relation "measure (\<lambda>(md, b, m, d). length (getAvailableMoves b))", goal_cases)
  case 1
  show ?case by simp
next
  case prems: 2
  from prems(3,4,5) show ?case
    by (auto dest: insert_board_fewer_moves)
qed

declare evaluate.simps [simp del]

text \<open>A result of \<open>evaluate\<close> as a result of \<open>getBestMove\<close> that leaves the state alone.\<close>

definition lift :: "Player \<Rightarrow> 'w \<Rightarrow> error + number \<Rightarrow> error + (number \<times> Player \<times> 'w)" where
  "lift p w r = (case r of Inl e \<Rightarrow> Inl e | Inr v \<Rightarrow> Inr (v, p, w))"

text \<open>
  The update of the tally in the loop of \<open>minimax\<close>, and the loop's body at the
  root (depth 0) with that update named.
\<close>

definition addMove :: "(number \<rightharpoonup> moves) \<Rightarrow> number \<Rightarrow> nat \<Rightarrow> (number \<rightharpoonup> moves)" where
  "addMove mp nodeValue index =
     mp(nodeValue \<mapsto>
          (case mp nodeValue of
             Some mv \<Rightarrow> Joined (render mv @ '','' @ toString index)
           | None \<Rightarrow> Index index))"

definition rootStep ::
  "board \<Rightarrow> bool \<Rightarrow> (number \<Rightarrow> 'w \<Rightarrow> 'w) \<Rightarrow> nat
     \<Rightarrow> error + (number \<times> Player \<times> 'w) \<Rightarrow> error + (number \<times> Player \<times> 'w)" where
  "rootStep b maximizing callback index acc =
     (case acc of
        Inl e \<Rightarrow> Inl e
      | Inr (best, p1, w1) \<Rightarrow>
          (case insert_board b (if \<not> maximizing then PlayerO else PlayerX) (int index) of
             Inl e \<Rightarrow> Inl e
           | Inr (ok, nextBoard) \<Rightarrow>
               (case getBestMove p1 nextBoard (\<not> maximizing) callback w1 (Suc 0) of
                  Inl e \<Rightarrow> Inl e
                | Inr (nv, p2, w2) \<Rightarrow>
                    Inr ((if \<not> maximizing then math_min else math_max) best nv,
                         p2\<lparr>nodesMap := addMove (nodesMap p2) nv index\<rparr>,
                         w2))))"

text \<open>
  The indices \<open>i, j, k\<close> as the string \<open>i,j,k\<close>, and the tally value that holds a list
  of indices appended one by one: nothing, a number, or such a string.
\<close>

fun joined :: "nat list \<Rightarrow> string" where
  "joined [] = []"
| "joined [i] = toString i"
| "joined (i # j # rest) = toString i @ '','' @ joined (j # rest)"

definition bucket :: "nat list \<Rightarrow> moves option" where
  "bucket l = (case l of [] \<Rightarrow> None | [i] \<Rightarrow> Some (Index i) | _ \<Rightarrow> Some (Joined (joined l)))"

text \<open>
  The number that the recursive call of the loop returns for the move \<open>index\<close> at the
  root: \<open>getBestMove\<close> on the successor board, for the other side, at depth 1 (with
  a fresh player and a callback that does nothing; \<open>child_call\<close> shows that neither
  matters).
\<close>

definition nodeValueOf :: "int \<Rightarrow> board \<Rightarrow> bool \<Rightarrow> nat \<Rightarrow> number" where
  "nodeValueOf md b maximizing index =
     (case getBestMove (newPlayer md) (b[index := (if \<not> maximizing then PlayerO else PlayerX)])
             (\<not> maximizing) (\<lambda>v u. u) () 1 of
        Inr (v, p, u) \<Rightarrow> v
      | Inl e \<Rightarrow> Undefined)"

text \<open>
  The same at any depth: the number that the recursive call of the loop returns for
  the move \<open>index\<close> when the loop runs at ply \<open>depth\<close>.
\<close>

definition childValue :: "int \<Rightarrow> board \<Rightarrow> bool \<Rightarrow> nat \<Rightarrow> nat \<Rightarrow> number" where
  "childValue md b maximizing depth index =
     (case getBestMove (newPlayer md) (b[index := (if \<not> maximizing then PlayerO else PlayerX)])
             (\<not> maximizing) (\<lambda>v u. u) () (depth + 1) of
        Inr (v, p, u) \<Rightarrow> v
      | Inl e \<Rightarrow> Undefined)"

text \<open>The final \<open>best\<close> of the root's loop, and the moves whose score equals it, in move order.\<close>

definition bestScore :: "int \<Rightarrow> board \<Rightarrow> bool \<Rightarrow> number" where
  "bestScore md b maximizing =
     fold (\<lambda>i a. (if \<not> maximizing then math_min else math_max) a (nodeValueOf md b maximizing i))
       (getAvailableMoves b)
       (if \<not> maximizing then Number 100 else Number (- 100))"

definition tiedMoves :: "int \<Rightarrow> board \<Rightarrow> bool \<Rightarrow> nat list" where
  "tiedMoves md b maximizing =
     filter (\<lambda>i. nodeValueOf md b maximizing i = bestScore md b maximizing) (getAvailableMoves b)"

text \<open>A callback that records its argument at the end of a log.\<close>

definition logCall :: "number \<Rightarrow> number list \<Rightarrow> number list" where
  "logCall v log = log @ [v]"

section \<open>The same search on a store of arrays\<close>

text \<open>
  A \<open>Board\<close> object holds a reference to its array, and \<open>insert\<close> writes into that
  array in place. To tell a board from its copies, this second model keeps the arrays
  in a store and passes boards by address.
\<close>

type_synonym addr = nat
type_synonym store = "board list"

text \<open>
  The array an address holds. Addresses come from \<open>newBoard\<close> only; an address
  never allocated holds the empty array here.
\<close>

definition arrayAt :: "store \<Rightarrow> addr \<Rightarrow> board" where
  "arrayAt s a = (if a < length s then s ! a else [])"

text \<open>
  \<open>new Board(cells)\<close> on a freshly built array \<open>cells\<close>, as in
  \<open>new Board([...board.getState()])\<close>: the spread copies the cells into a new array,
  which gets the next free address.
\<close>

definition newBoard :: "store \<Rightarrow> board \<Rightarrow> addr \<times> store" where
  "newBoard s cells = (length s, s @ [cells])"

text \<open>\<open>insert\<close> on a board given by reference: it writes into that board's array.\<close>

definition insert_ref :: "store \<Rightarrow> addr \<Rightarrow> CellValue \<Rightarrow> int \<Rightarrow> (error + bool) \<times> store" where
  "insert_ref s a symbol position =
     (case insert_board (arrayAt s a) symbol position of
        Inl e \<Rightarrow> (Inl e, s)
      | Inr (ok, cells) \<Rightarrow> (Inr ok, s[a := cells]))"

text \<open>
  The search on references. The recursion of \<open>minimax_ref\<close> now depends on what the
  store holds when it is reached, so it is cut by a fuel argument, and \<open>None\<close> is
  the search that has not come back within it. The store is returned also when
  \<open>insert\<close> throws.
\<close>

fun getBestMove_ref ::
    "nat \<Rightarrow> Player \<Rightarrow> store \<Rightarrow> addr \<Rightarrow> bool \<Rightarrow> (number \<Rightarrow> 'w \<Rightarrow> 'w) \<Rightarrow> 'w \<Rightarrow> nat
       \<Rightarrow> ((error + (number \<times> Player \<times> 'w)) \<times> store) option"
  and minimax_ref ::
    "nat \<Rightarrow> Player \<Rightarrow> bool \<Rightarrow> store \<Rightarrow> addr \<Rightarrow> (number \<Rightarrow> 'w \<Rightarrow> 'w) \<Rightarrow> 'w \<Rightarrow> nat
       \<Rightarrow> ((error + (number \<times> Player \<times> 'w)) \<times> store) option"
where
  "getBestMove_ref fuel p s board maximizing callback w depth =
     (let p1 = (if depth = 0 then p\<lparr>nodesMap := Map.empty\<rparr> else p);
          state = getFinishState (arrayAt s board)
      in if finished state \<or> int depth = maxDepth p1
         then Some (Inr (heuristic state depth, p1, w), s)
         else minimax_ref fuel p1 maximizing s board callback w depth)"
| "minimax_ref 0 p maximizing s board callback w depth = None"
| "minimax_ref (Suc fuel) p maximizing s board callback w depth =
     (let best0 = (if \<not> maximizing then Number 100 else Number (- 100));
          op = (if \<not> maximizing then math_min else math_max);
          cellValue = (if \<not> maximizing then PlayerO else PlayerX)
      in case fold
           (\<lambda>index acc.
              case acc of
                None \<Rightarrow> None
              | Some (Inl e, s1) \<Rightarrow> Some (Inl e, s1)
              | Some (Inr (best, p1, w1), s1) \<Rightarrow>
                  (case newBoard s1 (arrayAt s1 board) of
                     (nextBoard, s2) \<Rightarrow>
                  (case insert_ref s2 nextBoard cellValue (int index) of
                     (Inl e, s3) \<Rightarrow> Some (Inl e, s3)
                   | (Inr ok, s3) \<Rightarrow>
                       (case getBestMove_ref fuel p1 s3 nextBoard (\<not> maximizing) callback w1 (depth + 1) of
                          None \<Rightarrow> None
                        | Some (Inl e, s4) \<Rightarrow> Some (Inl e, s4)
                        | Some (Inr (nodeValue, p2, w2), s4) \<Rightarrow>
                            Some (Inr (op best nodeValue,
                                 (if depth = 0
                                  then p2\<lparr>nodesMap := (nodesMap p2)(nodeValue \<mapsto>
                                         (case nodesMap p2 nodeValue of
                                            Some mv \<Rightarrow> Joined (render mv @ '','' @ toString index)
                                          | None \<Rightarrow> Index index))\<rparr>
                                  else p2),
                                 w2), s4)))))
           (getAvailableMoves (arrayAt s board)) (Some (Inr (best0, p, w), s)) of
        None \<Rightarrow> None
      | Some (Inl e, s1) \<Rightarrow> Some (Inl e, s1)
      | Some (Inr (best, p1, w1), s1) \<Rightarrow>
          if depth = 0
          then (case getBestMoveAndExecuteCallback (nodesMap p1) best callback w1 of
                  (returnValue, w2) \<Rightarrow> Some (Inr (returnValue, p1, w2), s1))
          else Some (Inr (best, p1, w1), s1))"

declare getBestMove_ref.simps [simp del] minimax_ref.simps [simp del]


section \<open>Properties of the board\<close>

lemma occupied_available: "length (getAvailableMoves b) + occupied b = length b"
  unfolding occupied_def length_available
  using sum_length_filter_compl [of "\<lambda>cell. cell = Empty" b] by simp

lemma sorted_available: "sorted_wrt (<) (getAvailableMoves b)"
  by (simp add: getAvailableMoves_filter sorted_wrt_filter)

lemma full_no_moves: "isFull b \<Longrightarrow> getAvailableMoves b = []"
  by (auto simp: isFull_def getAvailableMoves_filter filter_empty_conv list_all_length)


text \<open>
  C6: on a board of nine cells, \<open>getAvailableMoves\<close> returns exactly the indices of
  the empty cells, in ascending order, so nothing for a full board; the number of
  indices returned and the number of occupied cells add up to 9.
\<close>

theorem getAvailableMoves_spec:
  assumes "length b = 9"
  shows "getAvailableMoves b = filter (\<lambda>i. b ! i = Empty) [0..<9]
         \<and> sorted_wrt (<) (getAvailableMoves b)
         \<and> set (getAvailableMoves b) = {i. i < 9 \<and> b ! i = Empty}
         \<and> (isFull b \<longrightarrow> getAvailableMoves b = [])
         \<and> length (getAvailableMoves b) + occupied b = 9"
proof -
  have "set (getAvailableMoves b) = {i. i < 9 \<and> b ! i = Empty}"
    using assms by (auto simp: available_iff)
  then show ?thesis
    using assms getAvailableMoves_filter [of b] sorted_available [of b]
      full_no_moves [of b] occupied_available [of b]
    by simp
qed

theorem getAvailableMoves_spec_witness:
  "length [PlayerX, PlayerO, Empty, Empty, Empty, Empty, PlayerO, Empty, PlayerX] = 9
   \<and> getAvailableMoves [PlayerX, PlayerO, Empty, Empty, Empty, Empty, PlayerO, Empty, PlayerX]
       = [2, 3, 4, 5, 7]
   \<and> length (getAvailableMoves [PlayerX, PlayerO, Empty, Empty, Empty, Empty, PlayerO, Empty, PlayerX])
       + occupied [PlayerX, PlayerO, Empty, Empty, Empty, Empty, PlayerO, Empty, PlayerX] = 9"
proof -
  let ?b = "[PlayerX, PlayerO, Empty, Empty, Empty, Empty, PlayerO, Empty, PlayerX]"
  have len: "length ?b = 9" by simp
  have flt: "filter (\<lambda>i. ?b ! i = Empty) [0..<9] = [2, 3, 4, 5, 7]" by code_simp
  show ?thesis
    using getAvailableMoves_spec [OF len] flt by (simp add: occupied_def)
qed







lemma calculateGameState_finished:
  assumes "length b = 9" "p1 < 9" "p2 < 9" "p3 < 9"
  shows "finished (calculateGameState b p1 p2 p3) = lineMatches b (p1, p2, p3)"
  using assms by (auto simp: calculateGameState_def lineMatches_def cellAt_def Let_def)

lemma WINNER_POSITIONS_bounds:
  assumes "k < length WINNER_POSITIONS" "WINNER_POSITIONS ! k = (p1, p2, p3)"
  shows "p1 < 9 \<and> p2 < 9 \<and> p3 < 9"
proof -
  have "\<forall>line \<in> set WINNER_POSITIONS. case line of (p1, p2, p3) \<Rightarrow> p1 < 9 \<and> p2 < 9 \<and> p3 < 9"
    by (simp add: WINNER_POSITIONS_def)
  moreover have "WINNER_POSITIONS ! k \<in> set WINNER_POSITIONS"
    using assms(1) by simp
  ultimately show ?thesis using assms(2) by fastforce
qed

lemma line_state_finished:
  assumes "length b = 9" "k < length WINNER_POSITIONS"
  shows "finished (map (\<lambda>(p1, p2, p3). calculateGameState b p1 p2 p3) WINNER_POSITIONS ! k)
         = lineMatches b (WINNER_POSITIONS ! k)"
proof -
  obtain p1 p2 p3 where l: "WINNER_POSITIONS ! k = (p1, p2, p3)"
    by (cases "WINNER_POSITIONS ! k") auto
  from WINNER_POSITIONS_bounds [OF assms(2) l] show ?thesis
    using assms l by (simp add: calculateGameState_finished)
qed

text \<open>
  C1: a full board on which the diagonal 0, 4, 8 holds three X, the end of a game
  that X wins with the ninth move. The line matches and \<open>calculateGameState\<close> reports
  X for it, but \<open>getFinishState\<close> asks \<open>isFull\<close> before it looks at any line and
  reports a draw.
\<close>

theorem getFinishState_full_board_with_line:
  "isFull [PlayerX, PlayerO, PlayerX, PlayerO, PlayerX, PlayerO, PlayerO, PlayerX, PlayerX]
   \<and> lineMatches [PlayerX, PlayerO, PlayerX, PlayerO, PlayerX, PlayerO, PlayerO, PlayerX, PlayerX] (0, 4, 8)
   \<and> calculateGameState [PlayerX, PlayerO, PlayerX, PlayerO, PlayerX, PlayerO, PlayerO, PlayerX, PlayerX] 0 4 8
       = \<lparr>winnerPositions = Some (0, 4, 8), winner = Some (Sym PlayerX), finished = True\<rparr>
   \<and> getFinishState [PlayerX, PlayerO, PlayerX, PlayerO, PlayerX, PlayerO, PlayerO, PlayerX, PlayerX]
       = \<lparr>winnerPositions = None, winner = Some DRAW, finished = True\<rparr>"
  by (simp add: isFull_def isEmpty_def lineMatches_def calculateGameState_def cellAt_def
        getFinishState_def)

text \<open>
  C5: on a board of nine cells that is neither empty nor full, \<open>getFinishState\<close>
  goes through the eight lines in the order rows, columns, diagonals, and the first
  line that matches gives the winner and the winning positions, whatever the later
  lines hold; with no matching line the game is not finished.
\<close>

theorem getFinishState_first_line:
  assumes "length b = 9" and "\<not> isEmpty b" and "\<not> isFull b"
  shows "WINNER_POSITIONS =
           [(0, 1, 2), (3, 4, 5), (6, 7, 8), (0, 3, 6), (1, 4, 7), (2, 5, 8), (0, 4, 8), (2, 4, 6)]
       \<and> (\<forall>k<8. lineMatches b (WINNER_POSITIONS ! k)
                  \<and> (\<forall>j<k. \<not> lineMatches b (WINNER_POSITIONS ! j)) \<longrightarrow>
             getFinishState b =
               \<lparr>winnerPositions = Some (WINNER_POSITIONS ! k),
                winner = Some (Sym (b ! fst (WINNER_POSITIONS ! k))),
                finished = True\<rparr>)
       \<and> ((\<forall>k<8. \<not> lineMatches b (WINNER_POSITIONS ! k)) \<longrightarrow>
             getFinishState b = \<lparr>winnerPositions = None, winner = None, finished = False\<rparr>)"
proof (intro conjI allI impI)
  show "WINNER_POSITIONS =
           [(0, 1, 2), (3, 4, 5), (6, 7, 8), (0, 3, 6), (1, 4, 7), (2, 5, 8), (0, 4, 8), (2, 4, 6)]"
    by (simp add: WINNER_POSITIONS_def)
next
  let ?states = "map (\<lambda>(p1, p2, p3). calculateGameState b p1 p2 p3) WINNER_POSITIONS"
  have len8: "length WINNER_POSITIONS = 8" by (simp add: WINNER_POSITIONS_def)
  fix k
  assume k: "k < 8"
    and first: "lineMatches b (WINNER_POSITIONS ! k)
                \<and> (\<forall>j<k. \<not> lineMatches b (WINNER_POSITIONS ! j))"
  obtain p1 p2 p3 where l: "WINNER_POSITIONS ! k = (p1, p2, p3)"
    by (cases "WINNER_POSITIONS ! k") auto
  have bounds: "p1 < 9 \<and> p2 < 9 \<and> p3 < 9"
    using WINNER_POSITIONS_bounds [of k p1 p2 p3] k l len8 by simp
  have fin: "finished (?states ! k)"
    using line_state_finished [OF assms(1), of k] k len8 first by simp
  have nofin: "\<forall>j<k. \<not> finished (?states ! j)"
    using line_state_finished [OF assms(1)] k len8 first by simp
  have "find finished ?states = Some (?states ! k)"
    unfolding find_Some_iff using fin nofin k len8 by auto
  moreover have "?states ! k = calculateGameState b p1 p2 p3"
    using k len8 l by simp
  moreover have "calculateGameState b p1 p2 p3 =
      \<lparr>winnerPositions = Some (p1, p2, p3), winner = Some (Sym (b ! p1)), finished = True\<rparr>"
    using first l bounds assms(1)
    by (auto simp: calculateGameState_def lineMatches_def cellAt_def)
  ultimately show "getFinishState b =
               \<lparr>winnerPositions = Some (WINNER_POSITIONS ! k),
                winner = Some (Sym (b ! fst (WINNER_POSITIONS ! k))),
                finished = True\<rparr>"
    using assms(2,3) l by (simp add: getFinishState_def)
next
  let ?states = "map (\<lambda>(p1, p2, p3). calculateGameState b p1 p2 p3) WINNER_POSITIONS"
  have len8: "length WINNER_POSITIONS = 8" by (simp add: WINNER_POSITIONS_def)
  assume none: "\<forall>k<8. \<not> lineMatches b (WINNER_POSITIONS ! k)"
  have "\<forall>k<length ?states. \<not> finished (?states ! k)"
    using line_state_finished [OF assms(1)] none len8 by simp
  then have "find finished ?states = None"
    unfolding find_None_iff by (metis in_set_conv_nth)
  then show "getFinishState b = \<lparr>winnerPositions = None, winner = None, finished = False\<rparr>"
    using assms(2,3) by (simp add: getFinishState_def)
qed

theorem getFinishState_first_line_witness:
  "getFinishState [PlayerO, Empty, PlayerX, PlayerO, PlayerX, PlayerX, PlayerO, Empty, PlayerX]
     = \<lparr>winnerPositions = Some (0, 3, 6), winner = Some (Sym PlayerO), finished = True\<rparr>
   \<and> lineMatches [PlayerO, Empty, PlayerX, PlayerO, PlayerX, PlayerX, PlayerO, Empty, PlayerX] (2, 5, 8)
   \<and> getFinishState [PlayerX, PlayerO, Empty, Empty, Empty, Empty, PlayerO, Empty, PlayerX]
     = \<lparr>winnerPositions = None, winner = None, finished = False\<rparr>"
proof -
  let ?b = "[PlayerO, Empty, PlayerX, PlayerO, PlayerX, PlayerX, PlayerO, Empty, PlayerX]"
  let ?c = "[PlayerX, PlayerO, Empty, Empty, Empty, Empty, PlayerO, Empty, PlayerX]"
  have b: "length ?b = 9" "\<not> isEmpty ?b" "\<not> isFull ?b"
    by (simp_all add: isEmpty_def isFull_def)
  have c: "length ?c = 9" "\<not> isEmpty ?c" "\<not> isFull ?c"
    by (simp_all add: isEmpty_def isFull_def)
  have wp: "WINNER_POSITIONS ! 3 = (0, 3, 6)" by (simp add: WINNER_POSITIONS_def)
  have m3: "lineMatches ?b (WINNER_POSITIONS ! 3)
            \<and> (\<forall>j<3. \<not> lineMatches ?b (WINNER_POSITIONS ! j))"
    by (simp add: WINNER_POSITIONS_def lineMatches_def less_Suc_eq numeral_3_eq_3)
  have none: "\<forall>k<8. \<not> lineMatches ?c (WINNER_POSITIONS ! k)"
    by (simp add: WINNER_POSITIONS_def lineMatches_def less_Suc_eq eval_nat_numeral)
  have "getFinishState ?b
     = \<lparr>winnerPositions = Some (0, 3, 6), winner = Some (Sym PlayerO), finished = True\<rparr>"
    using getFinishState_first_line [OF b, THEN conjunct2, THEN conjunct1, rule_format, of 3]
      m3 wp by simp
  moreover have "lineMatches ?b (2, 5, 8)" by (simp add: lineMatches_def)
  moreover have "getFinishState ?c
     = \<lparr>winnerPositions = None, winner = None, finished = False\<rparr>"
    using getFinishState_first_line [OF c, THEN conjunct2, THEN conjunct2] none by simp
  ultimately show ?thesis by simp
qed

section \<open>Properties of the search\<close>

subsection \<open>Calls below the root\<close>

lemma fold_related:
  assumes "R a a'"
    and "\<And>x c c'. x \<in> set xs \<Longrightarrow> R c c' \<Longrightarrow> R (f x c) (f' x c')"
  shows "R (fold f xs a) (fold f' xs a')"
  using assms
proof (induction xs arbitrary: a a')
  case Nil
  then show ?case by simp
next
  case (Cons x xs)
  have "R (f x a) (f' x a')" using Cons.prems by simp
  then show ?case using Cons.IH [of "f x a" "f' x a'"] Cons.prems(2) by simp
qed

lemma getBestMove_evaluate_aux:
  "(0 < depth \<longrightarrow> getBestMove p b maximizing callback w depth
       = lift p w (evaluate (maxDepth p) b maximizing depth))"
  "(0 < depth \<longrightarrow> \<not> (finished (getFinishState b) \<or> int depth = maxDepth p) \<longrightarrow>
     minimax p maximizing b callback w depth
       = lift p w (evaluate (maxDepth p) b maximizing depth))"
proof (induction p b maximizing callback w depth and p maximizing b callback w depth
       rule: getBestMove_minimax.induct)
  case (1 p b maximizing callback w depth)
  show ?case
  proof (intro impI)
    assume d: "0 < depth"
    show "getBestMove p b maximizing callback w depth
          = lift p w (evaluate (maxDepth p) b maximizing depth)"
    proof (cases "finished (getFinishState b) \<or> int depth = maxDepth p")
      case True
      then show ?thesis using d
        by (simp add: getBestMove.simps evaluate.simps lift_def)
    next
      case False
      have "getBestMove p b maximizing callback w depth
            = minimax p maximizing b callback w depth"
        using d False by (simp add: getBestMove.simps)
      also have "\<dots> = lift p w (evaluate (maxDepth p) b maximizing depth)"
        using "1.IH" [of p "getFinishState b"] d False by simp
      finally show ?thesis .
    qed
  qed
next
  case (2 p maximizing b callback w depth)
  show ?case
  proof (intro impI)
    assume d: "0 < depth"
      and nf: "\<not> (finished (getFinishState b) \<or> int depth = maxDepth p)"
    let ?cv = "if \<not> maximizing then PlayerO else PlayerX"
    let ?op = "if \<not> maximizing then math_min else math_max"
    let ?b0 = "if \<not> maximizing then Number 100 else Number (- 100)"
    let ?f = "\<lambda>index acc.
              case acc of
                Inl e \<Rightarrow> Inl e
              | Inr (best, p1, w1) \<Rightarrow>
                  (case insert_board b ?cv (int index) of
                     Inl e \<Rightarrow> Inl e
                   | Inr (ok, nextBoard) \<Rightarrow>
                       (case getBestMove p1 nextBoard (\<not> maximizing) callback w1 (depth + 1) of
                          Inl e \<Rightarrow> Inl e
                        | Inr (nodeValue, p2, w2) \<Rightarrow>
                            Inr (?op best nodeValue,
                                 (if depth = 0
                                  then p2\<lparr>nodesMap := (nodesMap p2)(nodeValue \<mapsto>
                                         (case nodesMap p2 nodeValue of
                                            Some mv \<Rightarrow> Joined (render mv @ '','' @ toString index)
                                          | None \<Rightarrow> Index index))\<rparr>
                                  else p2),
                                 w2)))"
    let ?g = "\<lambda>index acc.
              case acc of
                Inl e \<Rightarrow> Inl e
              | Inr best \<Rightarrow>
                  (case insert_board b ?cv (int index) of
                     Inl e \<Rightarrow> Inl e
                   | Inr (ok, nextBoard) \<Rightarrow>
                       (case evaluate (maxDepth p) nextBoard (\<not> maximizing) (depth + 1) of
                          Inl e \<Rightarrow> Inl e
                        | Inr nodeValue \<Rightarrow> Inr (?op best nodeValue)))"
    let ?R = "\<lambda>c c'. c = (case c' of Inl e \<Rightarrow> Inl e | Inr best \<Rightarrow> Inr (best, p, w))"
    have step: "?R (?f x c) (?g x c')" if x: "x \<in> set (getAvailableMoves b)" and r: "?R c c'"
      for x c c'
    proof (cases c')
      case (Inl e)
      then show ?thesis using r by simp
    next
      case (Inr best)
      then have c: "c = Inr (best, p, w)" using r by simp
      show ?thesis
      proof (cases "insert_board b ?cv (int x)")
        case (Inl e)
        then show ?thesis using c Inr by simp
      next
        case ins: (Inr res)
        obtain ok nextBoard where res: "res = (ok, nextBoard)" by (cases res) auto
        have "getBestMove p nextBoard (\<not> maximizing) callback w (depth + 1)
              = lift p w (evaluate (maxDepth p) nextBoard (\<not> maximizing) (depth + 1))"
          using "2.IH" [OF refl refl refl x ins res [symmetric], of p w] by simp
        then show ?thesis using c Inr ins res d
          by (simp add: lift_def split: sum.splits)
      qed
    qed
    have "?R (fold ?f (getAvailableMoves b) (Inr (?b0, p, w)))
             (fold ?g (getAvailableMoves b) (Inr ?b0))"
      by (rule fold_related [where R = ?R]) (simp, rule step)
    then show "minimax p maximizing b callback w depth
          = lift p w (evaluate (maxDepth p) b maximizing depth)"
      using d nf
      by (simp add: minimax.simps evaluate.simps [of _ b] lift_def Let_def split: sum.splits)
  qed
qed

lemma getBestMove_evaluate:
  "0 < depth \<Longrightarrow> getBestMove p b maximizing callback w depth
       = lift p w (evaluate (maxDepth p) b maximizing depth)"
  by (simp add: getBestMove_evaluate_aux(1))

lemma fold_invariant:
  assumes "I a" and "\<And>x c. x \<in> set xs \<Longrightarrow> I c \<Longrightarrow> I (f x c)"
  shows "I (fold f xs a)"
  using assms
proof (induction xs arbitrary: a)
  case Nil
  then show ?case by simp
next
  case (Cons x xs)
  have "I (f x a)" using Cons.prems by simp
  then show ?case using Cons.IH [of "f x a"] Cons.prems(2) by simp
qed

lemma insert_board_nine:
  assumes "length b = 9" "index \<in> set (getAvailableMoves b)" "symbol \<noteq> Empty"
  shows "insert_board b symbol (int index) = Inr (True, b[index := symbol])"
proof -
  have "index < 9" "b ! index = Empty" using assms by (auto simp: available_iff)
  then show ?thesis using assms
    by (cases symbol) (auto simp: insert_board_def cellAt_def assign_def)
qed

lemma evaluate_returns:
  "length b = 9 \<Longrightarrow> \<exists>v. evaluate md b maximizing depth = Inr v"
proof (induction md b maximizing depth rule: evaluate.induct)
  case (1 md b maximizing depth)
  let ?cv = "if \<not> maximizing then PlayerO else PlayerX"
  let ?op = "if \<not> maximizing then math_min else math_max"
  let ?g = "\<lambda>index acc.
              case acc of
                Inl e \<Rightarrow> Inl e
              | Inr best \<Rightarrow>
                  (case insert_board b ?cv (int index) of
                     Inl e \<Rightarrow> Inl e
                   | Inr (ok, nextBoard) \<Rightarrow>
                       (case evaluate md nextBoard (\<not> maximizing) (depth + 1) of
                          Inl e \<Rightarrow> Inl e
                        | Inr nodeValue \<Rightarrow> Inr (?op best nodeValue)))"
  show ?case
  proof (cases "finished (getFinishState b) \<or> int depth = md")
    case True
    then show ?thesis by (simp add: evaluate.simps)
  next
    case False
    have step: "\<exists>v. ?g x c = Inr v" if x: "x \<in> set (getAvailableMoves b)" and c: "\<exists>v. c = Inr v"
      for x c
    proof -
      from c obtain best where best: "c = Inr best" by auto
      have ins: "insert_board b ?cv (int x) = Inr (True, b[x := ?cv])"
        using insert_board_nine [OF "1.prems" x, of ?cv] by simp
      have "\<exists>v. evaluate md (b[x := ?cv]) (\<not> maximizing) (depth + 1) = Inr v"
        using "1.IH" [OF refl False x ins refl] "1.prems" by simp
      then show ?thesis using best ins by auto
    qed
    have "\<exists>v. fold ?g (getAvailableMoves b)
                (Inr (if \<not> maximizing then Number 100 else Number (- 100))) = Inr v"
      by (rule fold_invariant [where I = "\<lambda>c. \<exists>v. c = Inr v"]) (simp, rule step)
    then show ?thesis using False by (simp add: evaluate.simps [of _ b])
  qed
qed

lemma math_bounds:
  assumes "- 100 \<le> a" "a \<le> 100" "- 100 \<le> c" "c \<le> (100::int)"
  shows "\<exists>n. (if \<not> maximizing then math_min else math_max) (Number a) (Number c) = Number n
             \<and> - 100 \<le> n \<and> n \<le> 100"
  using assms by auto

lemma evaluate_range:
  "depth + length (getAvailableMoves b) \<le> 200 \<Longrightarrow> evaluate md b maximizing depth = Inr v
     \<Longrightarrow> \<exists>n. v = Number n \<and> - 100 \<le> n \<and> n \<le> 100"
proof (induction md b maximizing depth arbitrary: v rule: evaluate.induct)
  case (1 md b maximizing depth)
  let ?cv = "if \<not> maximizing then PlayerO else PlayerX"
  let ?op = "if \<not> maximizing then math_min else math_max"
  let ?g = "\<lambda>index acc.
              case acc of
                Inl e \<Rightarrow> Inl e
              | Inr best \<Rightarrow>
                  (case insert_board b ?cv (int index) of
                     Inl e \<Rightarrow> Inl e
                   | Inr (ok, nextBoard) \<Rightarrow>
                       (case evaluate md nextBoard (\<not> maximizing) (depth + 1) of
                          Inl e \<Rightarrow> Inl e
                        | Inr nodeValue \<Rightarrow> Inr (?op best nodeValue)))"
  let ?I = "\<lambda>c. \<forall>u. c = Inr u \<longrightarrow> (\<exists>n. u = Number n \<and> - 100 \<le> n \<and> n \<le> 100)"
  show ?case
  proof (cases "finished (getFinishState b) \<or> int depth = md")
    case True
    then have "v = heuristic (getFinishState b) depth"
      using "1.prems"(2) by (simp add: evaluate.simps)
    then show ?thesis using "1.prems"(1) by (auto simp: heuristic_def)
  next
    case False
    have step: "?I (?g x c)" if x: "x \<in> set (getAvailableMoves b)" and c: "?I c" for x c
    proof (intro allI impI)
      fix u assume u: "?g x c = Inr u"
      then obtain best where best: "c = Inr best" by (cases c) auto
      with c obtain a where a: "best = Number a" "- 100 \<le> a" "a \<le> 100" by auto
      from u best obtain ok nextBoard where
        ins: "insert_board b ?cv (int x) = Inr (ok, nextBoard)"
        by (cases "insert_board b ?cv (int x)") auto
      from u best ins obtain nodeValue where
        nv: "evaluate md nextBoard (\<not> maximizing) (depth + 1) = Inr nodeValue"
        by (cases "evaluate md nextBoard (\<not> maximizing) (depth + 1)") auto
      have "depth + 1 + length (getAvailableMoves nextBoard) \<le> 200"
        using insert_board_fewer_moves [OF x ins] "1.prems"(1) by simp
      from "1.IH" [OF refl False x ins refl this nv]
      obtain k where k: "nodeValue = Number k" "- 100 \<le> k" "k \<le> 100" by auto
      have "u = ?op best nodeValue" using u best ins nv by simp
      then show "\<exists>n. u = Number n \<and> - 100 \<le> n \<and> n \<le> 100"
        using math_bounds [OF a(2,3) k(2,3), of maximizing] a(1) k(1) by simp
    qed
    have "?I (fold ?g (getAvailableMoves b)
                (Inr (if \<not> maximizing then Number 100 else Number (- 100))))"
      by (rule fold_invariant [where I = ?I]) (simp, rule step)
    then show ?thesis using False "1.prems"(2) by (simp add: evaluate.simps [of _ b])
  qed
qed

lemma nodeValueOf_evaluate:
  "nodeValueOf md b maximizing index =
     (case evaluate md (b[index := (if \<not> maximizing then PlayerO else PlayerX)]) (\<not> maximizing) 1 of
        Inr v \<Rightarrow> v | Inl e \<Rightarrow> Undefined)"
  by (simp add: nodeValueOf_def getBestMove_evaluate newPlayer_def lift_def split: sum.splits)

lemma child_call:
  assumes "length b = 9" "index \<in> set (getAvailableMoves b)" "maxDepth q = md"
  shows "getBestMove q (b[index := (if \<not> maximizing then PlayerO else PlayerX)])
           (\<not> maximizing) callback w (Suc 0)
         = Inr (nodeValueOf md b maximizing index, q, w)"
proof -
  let ?nb = "b[index := (if \<not> maximizing then PlayerO else PlayerX)]"
  have "length ?nb = 9" using assms(1) by simp
  from evaluate_returns [OF this, of md "\<not> maximizing" 1]
  obtain v where v: "evaluate md ?nb (\<not> maximizing) 1 = Inr v" by auto
  then have "nodeValueOf md b maximizing index = v" by (simp add: nodeValueOf_evaluate)
  then show ?thesis using v assms(3) getBestMove_evaluate [of "Suc 0" q ?nb "\<not> maximizing" callback w]
    by (simp add: lift_def)
qed

subsection \<open>The tally and its strings\<close>

lemma digit_facts:
  "n < 10 \<Longrightarrow> digitValue (digitChars ! n) = Some n \<and> digitChars ! n \<noteq> CHR '',''"
proof -
  assume "n < 10"
  then have "n \<in> {0, 1, 2, 3, 4, 5, 6, 7, 8, 9}" by auto
  then show ?thesis
    by (auto simp: digitValue_def digitChars_def)
qed

lemma toString_chars:
  "c \<in> set (toString n) \<Longrightarrow> digitValue c \<noteq> None \<and> c \<noteq> CHR '',''"
proof (induction n arbitrary: c rule: toString.induct)
  case (1 n)
  show ?case
  proof (cases "n < 10")
    case True
    then have "c = digitChars ! n" using "1.prems"
      by (subst (asm) toString.simps) simp
    then show ?thesis using digit_facts [OF True] by simp
  next
    case False
    have m: "n mod 10 < 10" by simp
    from "1.prems" False
    have "c \<in> set (toString (n div 10)) \<or> c = digitChars ! (n mod 10)"
      by (subst (asm) toString.simps) auto
    then show ?thesis using "1.IH" [OF False] digit_facts [OF m] by auto
  qed
qed

lemma toString_value:
  "toString n \<noteq> [] \<and> foldl (\<lambda>a c. 10 * a + the (digitValue c)) 0 (toString n) = n"
proof (induction n rule: toString.induct)
  case (1 n)
  show ?case
  proof (cases "n < 10")
    case True
    then have "toString n = [digitChars ! n]"
      by (subst toString.simps) simp
    then show ?thesis using digit_facts [OF True] by simp
  next
    case False
    have m: "n mod 10 < 10" by simp
    have "toString n = toString (n div 10) @ [digitChars ! (n mod 10)]"
      using False by (subst toString.simps) simp
    then show ?thesis using "1.IH" [OF False] digit_facts [OF m] by simp
  qed
qed

lemma toNumber_toString: "toNumber (toString n) = Number (int n)"
proof -
  have "list_all (\<lambda>c. digitValue c \<noteq> None) (toString n)"
    using toString_chars [of _ n] by (auto simp: list_all_iff)
  then show ?thesis using toString_value [of n] by (simp add: toNumber_def)
qed

lemma split_no_separator: "sep \<notin> set u \<Longrightarrow> split sep u = [u]"
  by (induction u) auto

lemma split_first:
  "sep \<notin> set u \<Longrightarrow> split sep (u @ sep # rest) = u # split sep rest"
  by (induction u) auto

lemma joined_snoc: "l \<noteq> [] \<Longrightarrow> joined (l @ [x]) = joined l @ '','' @ toString x"
  by (induction l rule: joined.induct) auto

lemma bucket_snoc:
  "bucket (l @ [x]) =
     Some (case bucket l of
             Some mv \<Rightarrow> Joined (render mv @ '','' @ toString x)
           | None \<Rightarrow> Index x)"
proof (cases l)
  case Nil
  then show ?thesis by (simp add: bucket_def)
next
  case (Cons i r)
  then have ne: "l \<noteq> []" by simp
  show ?thesis
  proof (cases r)
    case Nil
    then show ?thesis using Cons by (simp add: bucket_def)
  next
    case (Cons j r')
    then show ?thesis using \<open>l = i # r\<close> joined_snoc [OF ne, of x]
      by (simp add: bucket_def)
  qed
qed

lemma tally_fold:
  "fold (\<lambda>i mp. addMove mp (val i) i) ms Map.empty
   = (\<lambda>k. bucket (filter (\<lambda>i. val i = k) ms))"
proof (induction ms rule: rev_induct)
  case Nil
  show ?case by (simp add: bucket_def)
next
  case (snoc x xs)
  show ?case
  proof
    fix k
    have "fold (\<lambda>i mp. addMove mp (val i) i) (xs @ [x]) Map.empty k
          = addMove (\<lambda>k. bucket (filter (\<lambda>i. val i = k) xs)) (val x) x k"
      by (simp add: snoc.IH)
    also have "\<dots> = bucket (filter (\<lambda>i. val i = k) (xs @ [x]))"
      by (simp add: addMove_def bucket_snoc)
    finally show "fold (\<lambda>i mp. addMove mp (val i) i) (xs @ [x]) Map.empty k
          = bucket (filter (\<lambda>i. val i = k) (xs @ [x]))" .
  qed
qed

lemma joined_first:
  "split CHR '','' (joined (i # j # rest)) = toString i # split CHR '','' (joined (j # rest))"
proof -
  have "CHR '','' \<notin> set (toString i)" using toString_chars [of "CHR '',''" i] by auto
  then show ?thesis using split_first [of "CHR '',''" "toString i"] by simp
qed

lemma bucket_first:
  assumes "l \<noteq> []" "mp best = bucket l"
  shows "getBestMoveAndExecuteCallback mp best callback w
         = (Number (int (hd l)), callback (Number (int (hd l))) w)"
proof (cases l)
  case Nil
  then show ?thesis using assms by simp
next
  case (Cons i r)
  show ?thesis
  proof (cases r)
    case Nil
    then show ?thesis using Cons assms
      by (simp add: getBestMoveAndExecuteCallback_def bucket_def Let_def)
  next
    case (Cons j r')
    then show ?thesis using \<open>l = i # r\<close> assms joined_first [of i j r'] toNumber_toString [of i]
      by (simp add: getBestMoveAndExecuteCallback_def bucket_def Let_def)
  qed
qed

subsection \<open>The root call\<close>

lemma minimax_root:
  "minimax p maximizing b callback w 0 =
     (case fold (rootStep b maximizing callback) (getAvailableMoves b)
             (Inr (if \<not> maximizing then Number 100 else Number (- 100), p, w)) of
        Inl e \<Rightarrow> Inl e
      | Inr (best, p1, w1) \<Rightarrow>
          (case getBestMoveAndExecuteCallback (nodesMap p1) best callback w1 of
             (returnValue, w2) \<Rightarrow> Inr (returnValue, p1, w2)))"
proof -
  have "rootStep b maximizing callback =
     (\<lambda>index acc.
              case acc of
                Inl e \<Rightarrow> Inl e
              | Inr (best, p1, w1) \<Rightarrow>
                  (case insert_board b (if \<not> maximizing then PlayerO else PlayerX) (int index) of
                     Inl e \<Rightarrow> Inl e
                   | Inr (ok, nextBoard) \<Rightarrow>
                       (case getBestMove p1 nextBoard (\<not> maximizing) callback w1 (0 + 1) of
                          Inl e \<Rightarrow> Inl e
                        | Inr (nodeValue, p2, w2) \<Rightarrow>
                            Inr ((if \<not> maximizing then math_min else math_max) best nodeValue,
                                 (if (0::nat) = 0
                                  then p2\<lparr>nodesMap := (nodesMap p2)(nodeValue \<mapsto>
                                         (case nodesMap p2 nodeValue of
                                            Some mv \<Rightarrow> Joined (render mv @ '','' @ toString index)
                                          | None \<Rightarrow> Index index))\<rparr>
                                  else p2),
                                 w2))))"
    by (intro ext) (simp add: rootStep_def addMove_def split: sum.splits prod.splits)
  then show ?thesis
    by (subst minimax.simps) (simp only: Let_def if_True refl)
qed

lemma rootStep_nine:
  assumes "length b = 9" "x \<in> set (getAvailableMoves b)" "maxDepth q = md"
  shows "rootStep b maximizing callback x (Inr (best, q, w))
         = Inr ((if \<not> maximizing then math_min else math_max) best (nodeValueOf md b maximizing x),
                q\<lparr>nodesMap := addMove (nodesMap q) (nodeValueOf md b maximizing x) x\<rparr>,
                w)"
proof -
  let ?cv = "if \<not> maximizing then PlayerO else PlayerX"
  have ins: "insert_board b ?cv (int x) = Inr (True, b[x := ?cv])"
    using insert_board_nine [OF assms(1,2), of ?cv] by simp
  have call: "getBestMove q (b[x := ?cv]) (\<not> maximizing) callback w (Suc 0)
              = Inr (nodeValueOf md b maximizing x, q, w)"
    by (rule child_call [OF assms])
  show ?thesis
    using ins call by (cases maximizing) (simp_all add: rootStep_def)
qed

lemma root_fold:
  assumes len: "length b = 9"
  shows "set ms \<subseteq> set (getAvailableMoves b) \<Longrightarrow> maxDepth q = md \<Longrightarrow>
    fold (rootStep b maximizing callback) ms (Inr (best, q, w))
    = Inr (fold (\<lambda>i a. (if \<not> maximizing then math_min else math_max) a (nodeValueOf md b maximizing i))
             ms best,
           q\<lparr>nodesMap := fold (\<lambda>i mp. addMove mp (nodeValueOf md b maximizing i) i) ms (nodesMap q)\<rparr>,
           w)"
proof (induction ms arbitrary: best q)
  case Nil
  then show ?case by simp
next
  case (Cons x xs)
  have x: "x \<in> set (getAvailableMoves b)" using Cons.prems(1) by simp
  have xs: "set xs \<subseteq> set (getAvailableMoves b)" using Cons.prems(1) by simp
  let ?q = "q\<lparr>nodesMap := addMove (nodesMap q) (nodeValueOf md b maximizing x) x\<rparr>"
  have q: "maxDepth ?q = md" using Cons.prems(2) by simp
  have "fold (rootStep b maximizing callback) (x # xs) (Inr (best, q, w))
        = fold (rootStep b maximizing callback) xs
            (Inr ((if \<not> maximizing then math_min else math_max) best (nodeValueOf md b maximizing x),
                  ?q, w))"
    using rootStep_nine [OF len x Cons.prems(2), of maximizing callback best w] by simp
  also note Cons.IH [OF xs q]
  finally show ?case by simp
qed

lemma fold_op_mem:
  assumes "\<forall>i \<in> set xs. \<exists>k. val i = Number k"
  shows "fold (\<lambda>i a. (if \<not> maximizing then math_min else math_max) a (val i)) xs (Number a)
         \<in> insert (Number a) (val ` set xs)"
  using assms
proof (induction xs arbitrary: a)
  case Nil
  then show ?case by simp
next
  case (Cons x xs)
  then obtain k where k: "val x = Number k" by auto
  let ?a = "if \<not> maximizing then min a k else max a k"
  have step: "(if \<not> maximizing then math_min else math_max) (Number a) (val x) = Number ?a"
    using k by simp
  have "Number ?a \<in> insert (Number a) (val ` set (x # xs))"
    using k by (auto simp: min_def max_def)
  moreover have "fold (\<lambda>i a. (if \<not> maximizing then math_min else math_max) a (val i)) xs (Number ?a)
         \<in> insert (Number ?a) (val ` set xs)"
    using Cons.IH [of ?a] Cons.prems by simp
  ultimately show ?case using step by auto
qed

lemma best_among_values:
  assumes "xs \<noteq> []"
    and "\<forall>i \<in> set xs. \<exists>k. val i = Number k \<and> - 100 \<le> k \<and> k \<le> 100"
  shows "fold (\<lambda>i a. (if \<not> maximizing then math_min else math_max) a (val i)) xs
           (if \<not> maximizing then Number 100 else Number (- 100))
         \<in> val ` set xs"
proof -
  obtain x r where xs: "xs = x # r" using assms(1) by (cases xs) auto
  obtain k where k: "val x = Number k" "- 100 \<le> k" "k \<le> 100" using assms(2) xs by auto
  have first: "(if \<not> maximizing then math_min else math_max)
                 (if \<not> maximizing then Number 100 else Number (- 100)) (val x) = Number k"
    using k by simp
  have r: "\<forall>i \<in> set r. \<exists>k. val i = Number k" using assms(2) xs by auto
  have "fold (\<lambda>i a. (if \<not> maximizing then math_min else math_max) a (val i)) r (Number k)
         \<in> insert (Number k) (val ` set r)"
    by (rule fold_op_mem [OF r])
  then show ?thesis using first xs k(1) by auto
qed

lemma nodeValueOf_range:
  assumes "length b = 9" "index \<in> set (getAvailableMoves b)"
  shows "\<exists>k. nodeValueOf md b maximizing index = Number k \<and> - 100 \<le> k \<and> k \<le> 100"
proof -
  let ?nb = "b[index := (if \<not> maximizing then PlayerO else PlayerX)]"
  have len: "length ?nb = 9" using assms(1) by simp
  from evaluate_returns [OF len, of md "\<not> maximizing" 1]
  obtain v where v: "evaluate md ?nb (\<not> maximizing) 1 = Inr v" by auto
  have "length (getAvailableMoves ?nb) \<le> 9"
    using len length_filter_le [of "\<lambda>cell. cell = Empty" ?nb] by (simp add: length_available)
  then have "1 + length (getAvailableMoves ?nb) \<le> 200" by simp
  from evaluate_range [OF this v] show ?thesis using v by (simp add: nodeValueOf_evaluate)
qed

lemma nine_not_finished_moves:
  assumes "length b = 9" "\<not> finished (getFinishState b)"
  shows "getAvailableMoves b \<noteq> []"
proof -
  have "\<not> isFull b"
  proof
    assume f: "isFull b"
    then have "\<not> isEmpty b" using assms(1)
      by (cases b) (auto simp: isFull_def isEmpty_def)
    then show False using f assms(2) by (simp add: getFinishState_def)
  qed
  then obtain i where "i < length b" "b ! i = Empty"
    by (auto simp: isFull_def list_all_length)
  then have "i \<in> set (getAvailableMoves b)" by (simp add: available_iff)
  then show ?thesis by auto
qed

lemma tiedMoves_nonempty:
  assumes "length b = 9" "\<not> finished (getFinishState b)"
  shows "tiedMoves md b maximizing \<noteq> []"
proof -
  have "bestScore md b maximizing \<in> nodeValueOf md b maximizing ` set (getAvailableMoves b)"
    unfolding bestScore_def
    by (rule best_among_values [OF nine_not_finished_moves [OF assms]])
       (simp add: nodeValueOf_range [OF assms(1)])
  then show ?thesis by (auto simp: tiedMoves_def filter_empty_conv)
qed

lemma root_result:
  assumes len: "length b = 9" and nf: "\<not> finished (getFinishState b)" and md: "maxDepth p \<noteq> 0"
  shows "getBestMove p b maximizing callback w 0
         = Inr (Number (int (hd (tiedMoves (maxDepth p) b maximizing))),
                p\<lparr>nodesMap := (\<lambda>k. bucket (filter (\<lambda>i. nodeValueOf (maxDepth p) b maximizing i = k)
                                               (getAvailableMoves b)))\<rparr>,
                callback (Number (int (hd (tiedMoves (maxDepth p) b maximizing)))) w)"
proof -
  let ?p0 = "p\<lparr>nodesMap := Map.empty\<rparr>"
  let ?val = "nodeValueOf (maxDepth p) b maximizing"
  let ?tally = "\<lambda>k. bucket (filter (\<lambda>i. ?val i = k) (getAvailableMoves b))"
  let ?best = "bestScore (maxDepth p) b maximizing"
  let ?chosen = "hd (tiedMoves (maxDepth p) b maximizing)"
  have p0: "maxDepth ?p0 = maxDepth p" by simp
  have fold: "fold (rootStep b maximizing callback) (getAvailableMoves b)
                (Inr (if \<not> maximizing then Number 100 else Number (- 100), ?p0, w))
    = Inr (?best, p\<lparr>nodesMap := ?tally\<rparr>, w)"
    unfolding root_fold [OF len subset_refl p0] bestScore_def
    by (simp add: tally_fold)
  have tb: "?tally ?best = bucket (tiedMoves (maxDepth p) b maximizing)"
    by (simp add: tiedMoves_def)
  have ne: "tiedMoves (maxDepth p) b maximizing \<noteq> []"
    by (rule tiedMoves_nonempty [OF len nf])
  have cb: "getBestMoveAndExecuteCallback ?tally ?best callback w
        = (Number (int ?chosen), callback (Number (int ?chosen)) w)"
    using bucket_first [where mp = ?tally and best = ?best, OF ne] tb by simp
  have "getBestMove p b maximizing callback w 0 = minimax ?p0 maximizing b callback w 0"
    using nf md by (simp add: getBestMove.simps)
  also have "\<dots> = Inr (Number (int ?chosen), p\<lparr>nodesMap := ?tally\<rparr>,
                       callback (Number (int ?chosen)) w)"
    unfolding minimax_root fold by (simp add: cb)
  finally show ?thesis .
qed

subsection \<open>Leaves\<close>

lemma not_finished_no_winner:
  assumes "\<not> finished (getFinishState b)"
  shows "winner (getFinishState b) = None"
proof (cases "isEmpty b \<or> isFull b")
  case True
  then show ?thesis using assms by (cases "isEmpty b") (auto simp: getFinishState_def)
next
  case False
  let ?states = "map (\<lambda>(p1, p2, p3). calculateGameState b p1 p2 p3) WINNER_POSITIONS"
  show ?thesis
  proof (cases "find finished ?states")
    case None
    then show ?thesis using False by (simp add: getFinishState_def)
  next
    case (Some s)
    then have "finished s" by (auto simp: find_Some_iff)
    moreover have "getFinishState b = s" using False Some by (simp add: getFinishState_def)
    ultimately show ?thesis using assms by simp
  qed
qed

text \<open>
  C2: at a leaf of the search, reached at ply \<open>depth\<close>, \<open>getBestMove\<close> returns
  \<open>100 - depth\<close> when the reported winner is X, \<open>-100 + depth\<close> when it is O, and 0
  for a draw and for a board that is not finished but sits at the maximum depth. The
  callback is not invoked, and the player is unchanged but for the tally, which a call
  at depth 0 has cleared.
\<close>

theorem leaf_score:
  "(finished (getFinishState b) \<and> winner (getFinishState b) = Some (Sym PlayerX) \<longrightarrow>
      getBestMove p b maximizing callback w depth
      = Inr (Number (100 - int depth),
             (if depth = 0 then p\<lparr>nodesMap := Map.empty\<rparr> else p), w))
   \<and> (finished (getFinishState b) \<and> winner (getFinishState b) = Some (Sym PlayerO) \<longrightarrow>
      getBestMove p b maximizing callback w depth
      = Inr (Number (- 100 + int depth),
             (if depth = 0 then p\<lparr>nodesMap := Map.empty\<rparr> else p), w))
   \<and> (finished (getFinishState b) \<and> winner (getFinishState b) = Some DRAW \<longrightarrow>
      getBestMove p b maximizing callback w depth
      = Inr (Number 0, (if depth = 0 then p\<lparr>nodesMap := Map.empty\<rparr> else p), w))
   \<and> (\<not> finished (getFinishState b) \<and> int depth = maxDepth p \<longrightarrow>
      getBestMove p b maximizing callback w depth
      = Inr (Number 0, (if depth = 0 then p\<lparr>nodesMap := Map.empty\<rparr> else p), w))"
proof (intro conjI impI)
  assume "finished (getFinishState b) \<and> winner (getFinishState b) = Some (Sym PlayerX)"
  then show "getBestMove p b maximizing callback w depth
      = Inr (Number (100 - int depth),
             (if depth = 0 then p\<lparr>nodesMap := Map.empty\<rparr> else p), w)"
    by (simp add: getBestMove.simps heuristic_def)
next
  assume "finished (getFinishState b) \<and> winner (getFinishState b) = Some (Sym PlayerO)"
  then show "getBestMove p b maximizing callback w depth
      = Inr (Number (- 100 + int depth),
             (if depth = 0 then p\<lparr>nodesMap := Map.empty\<rparr> else p), w)"
    by (simp add: getBestMove.simps heuristic_def)
next
  assume "finished (getFinishState b) \<and> winner (getFinishState b) = Some DRAW"
  then show "getBestMove p b maximizing callback w depth
      = Inr (Number 0, (if depth = 0 then p\<lparr>nodesMap := Map.empty\<rparr> else p), w)"
    by (simp add: getBestMove.simps heuristic_def)
next
  assume a: "\<not> finished (getFinishState b) \<and> int depth = maxDepth p"
  then have "winner (getFinishState b) = None" by (simp add: not_finished_no_winner)
  then show "getBestMove p b maximizing callback w depth
      = Inr (Number 0, (if depth = 0 then p\<lparr>nodesMap := Map.empty\<rparr> else p), w)"
    using a by (simp add: getBestMove.simps heuristic_def)
qed

theorem leaf_score_witness:
  "getBestMove (newPlayer (- 1)) [PlayerX, PlayerX, PlayerX, PlayerO, PlayerO, Empty, Empty, Empty, Empty]
     False logCall [] 3 = Inr (Number 97, newPlayer (- 1), [])
   \<and> getBestMove (newPlayer (- 1)) [PlayerX, PlayerX, Empty, PlayerO, PlayerO, PlayerO, PlayerX, Empty, Empty]
     True logCall [] 4 = Inr (Number (- 96), newPlayer (- 1), [])
   \<and> getBestMove (newPlayer (- 1)) [PlayerX, PlayerO, PlayerX, PlayerX, PlayerO, PlayerO, PlayerO, PlayerX, PlayerX]
     False logCall [] 9 = Inr (Number 0, newPlayer (- 1), [])
   \<and> getBestMove (newPlayer 2) [PlayerX, PlayerO, Empty, Empty, Empty, Empty, PlayerO, Empty, PlayerX]
     True logCall [] 2 = Inr (Number 0, newPlayer 2, [])"
proof -
  let ?bx = "[PlayerX, PlayerX, PlayerX, PlayerO, PlayerO, Empty, Empty, Empty, Empty]"
  let ?bo = "[PlayerX, PlayerX, Empty, PlayerO, PlayerO, PlayerO, PlayerX, Empty, Empty]"
  let ?bd = "[PlayerX, PlayerO, PlayerX, PlayerX, PlayerO, PlayerO, PlayerO, PlayerX, PlayerX]"
  let ?bn = "[PlayerX, PlayerO, Empty, Empty, Empty, Empty, PlayerO, Empty, PlayerX]"
  have sx: "getFinishState ?bx
    = \<lparr>winnerPositions = Some (0, 1, 2), winner = Some (Sym PlayerX), finished = True\<rparr>"
    by (simp add: getFinishState_def isEmpty_def isFull_def calculateGameState_def cellAt_def
          WINNER_POSITIONS_def)
  have so: "getFinishState ?bo
    = \<lparr>winnerPositions = Some (3, 4, 5), winner = Some (Sym PlayerO), finished = True\<rparr>"
    by (simp add: getFinishState_def isEmpty_def isFull_def calculateGameState_def cellAt_def
          WINNER_POSITIONS_def)
  have sd: "getFinishState ?bd
    = \<lparr>winnerPositions = None, winner = Some DRAW, finished = True\<rparr>"
    by (simp add: getFinishState_def isEmpty_def isFull_def)
  have sn: "getFinishState ?bn
    = \<lparr>winnerPositions = None, winner = None, finished = False\<rparr>"
    by (simp add: getFinishState_def isEmpty_def isFull_def calculateGameState_def cellAt_def
          WINNER_POSITIONS_def)
  have "getBestMove (newPlayer (- 1)) ?bx False logCall [] 3 = Inr (Number 97, newPlayer (- 1), [])"
    using leaf_score [of ?bx "newPlayer (- 1)" False logCall "[]" 3] sx by simp
  moreover have "getBestMove (newPlayer (- 1)) ?bo True logCall [] 4
                 = Inr (Number (- 96), newPlayer (- 1), [])"
    using leaf_score [of ?bo "newPlayer (- 1)" True logCall "[]" 4] so by simp
  moreover have "getBestMove (newPlayer (- 1)) ?bd False logCall [] 9
                 = Inr (Number 0, newPlayer (- 1), [])"
    using leaf_score [of ?bd "newPlayer (- 1)" False logCall "[]" 9] sd by simp
  moreover have "getBestMove (newPlayer 2) ?bn True logCall [] 2 = Inr (Number 0, newPlayer 2, [])"
    using leaf_score [of ?bn "newPlayer 2" True logCall "[]" 2] sn by (simp add: newPlayer_def)
  ultimately show ?thesis by simp
qed


subsection \<open>The tally between two calls\<close>

lemma rootStep_maxDepth:
  assumes "\<forall>best q u. c = Inr (best, q, u) \<longrightarrow> maxDepth q = md"
  shows "\<forall>best q u. rootStep b maximizing callback x c = Inr (best, q, u) \<longrightarrow> maxDepth q = md"
proof (intro allI impI)
  fix best q u
  assume r: "rootStep b maximizing callback x c = Inr (best, q, u)"
  then obtain best0 q0 u0 where c: "c = Inr (best0, q0, u0)"
    by (cases c) (auto simp: rootStep_def)
  then have q0: "maxDepth q0 = md" using assms by simp
  from r c obtain ok nextBoard where
    ins: "insert_board b (if \<not> maximizing then PlayerO else PlayerX) (int x) = Inr (ok, nextBoard)"
    by (cases "insert_board b (if \<not> maximizing then PlayerO else PlayerX) (int x)")
       (auto simp: rootStep_def)
  have call: "getBestMove q0 nextBoard (\<not> maximizing) callback u0 (Suc 0)
        = lift q0 u0 (evaluate (maxDepth q0) nextBoard (\<not> maximizing) (Suc 0))"
    by (simp add: getBestMove_evaluate)
  show "maxDepth q = md"
    using r c ins call q0
    by (cases "evaluate (maxDepth q0) nextBoard (\<not> maximizing) (Suc 0)")
       (auto simp: rootStep_def lift_def)
qed

lemma root_keeps_maxDepth:
  assumes "getBestMove p b maximizing callback w 0 = Inr (v, p', w')"
  shows "maxDepth p' = maxDepth p"
proof (cases "finished (getFinishState b) \<or> maxDepth p = 0")
  case True
  then show ?thesis using assms by (auto simp: getBestMove.simps)
next
  case False
  let ?p0 = "p\<lparr>nodesMap := Map.empty\<rparr>"
  let ?I = "\<lambda>c. \<forall>best q u. c = Inr (best, q, u) \<longrightarrow> maxDepth q = maxDepth p"
  let ?r = "fold (rootStep b maximizing callback) (getAvailableMoves b)
             (Inr (if \<not> maximizing then Number 100 else Number (- 100), ?p0, w))"
  have inv: "?I ?r"
    by (rule fold_invariant [where I = ?I]) (simp, rule rootStep_maxDepth)
  have "minimax ?p0 maximizing b callback w 0 = Inr (v, p', w')"
    using assms False by (simp add: getBestMove.simps)
  then obtain best u where "?r = Inr (best, p', u)"
    unfolding minimax_root by (auto split: sum.splits prod.splits)
  then show ?thesis using inv by simp
qed

lemma root_only_maxDepth:
  assumes "maxDepth p = maxDepth q"
  shows "getBestMove p b maximizing callback w 0 = getBestMove q b maximizing callback w 0"
proof -
  have "p\<lparr>nodesMap := Map.empty\<rparr> = q\<lparr>nodesMap := Map.empty\<rparr>"
    using assms by (cases p, cases q) simp
  then show ?thesis by (simp add: getBestMove.simps)
qed

text \<open>
  C9: a call at depth 0 clears the tally before anything else, so what an earlier
  top-level call has left in the player does not reach the next one: after any call
  at depth 0 that has returned, a second call at depth 0, on any board, for either
  side and with any callback, gives exactly what it gives on a freshly constructed
  player with the same maximum depth.
\<close>

theorem tally_is_reset:
  assumes "getBestMove p b1 maximizing1 callback1 w1 0 = Inr (v, p', w')"
  shows "getBestMove p' b2 maximizing2 callback2 w2 0
         = getBestMove (newPlayer (maxDepth p)) b2 maximizing2 callback2 w2 0"
proof -
  have "maxDepth p' = maxDepth (newPlayer (maxDepth p))"
    using root_keeps_maxDepth [OF assms] by (simp add: newPlayer_def)
  then show ?thesis by (rule root_only_maxDepth)
qed

theorem tally_is_reset_witness:
  "\<exists>v p' w'.
     getBestMove (newPlayer (- 1))
       [PlayerX, PlayerX, Empty, PlayerO, PlayerO, Empty, Empty, Empty, Empty] True logCall [] 0
     = Inr (v, p', w')
     \<and> nodesMap p' (Number 99) = Some (Index 2)
     \<and> getBestMove p'
          [PlayerX, PlayerO, Empty, Empty, Empty, Empty, PlayerO, Empty, PlayerX] True logCall [] 0
        = getBestMove (newPlayer (- 1))
          [PlayerX, PlayerO, Empty, Empty, Empty, Empty, PlayerO, Empty, PlayerX] True logCall [] 0"
proof -
  let ?b1 = "[PlayerX, PlayerX, Empty, PlayerO, PlayerO, Empty, Empty, Empty, Empty]"
  let ?b2 = "[PlayerX, PlayerO, Empty, Empty, Empty, Empty, PlayerO, Empty, PlayerX]"
  have "case getBestMove (newPlayer (- 1)) ?b1 True logCall [] 0 of
          Inr (v, p, log) \<Rightarrow> nodesMap p (Number 99) = Some (Index 2) | Inl e \<Rightarrow> False"
    by code_simp
  then obtain v p' w' where
    first: "getBestMove (newPlayer (- 1)) ?b1 True logCall [] 0 = Inr (v, p', w')"
    and left: "nodesMap p' (Number 99) = Some (Index 2)"
    by (auto split: sum.splits)
  have "getBestMove p' ?b2 True logCall [] 0
        = getBestMove (newPlayer (maxDepth (newPlayer (- 1)))) ?b2 True logCall [] 0"
    by (rule tally_is_reset [OF first])
  then have "getBestMove p' ?b2 True logCall [] 0
        = getBestMove (newPlayer (- 1)) ?b2 True logCall [] 0"
    by (simp add: newPlayer_def)
  with first left show ?thesis by blast
qed

subsection \<open>The move the root returns\<close>

lemma hd_filter_least:
  assumes "sorted_wrt (<) (xs :: nat list)" "filter P xs = c # rest" "j \<in> set xs" "P j"
  shows "c \<le> j"
proof -
  have s: "sorted_wrt (<) (c # rest)"
    using sorted_wrt_filter [OF assms(1), of P] assms(2) by simp
  have "j \<in> set (filter P xs)" using assms(3,4) by simp
  then have "j \<in> set (c # rest)" using assms(2) by simp
  then show ?thesis using s by auto
qed

lemma nodeValueOf_childValue: "nodeValueOf md b maximizing index = childValue md b maximizing 0 index"
  by (simp add: nodeValueOf_def childValue_def)

lemma childValue_evaluate:
  assumes "length b = 9"
  shows "evaluate md (b[index := (if \<not> maximizing then PlayerO else PlayerX)]) (\<not> maximizing) (depth + 1)
         = Inr (childValue md b maximizing depth index)"
proof -
  let ?nb = "b[index := (if \<not> maximizing then PlayerO else PlayerX)]"
  have "length ?nb = 9" using assms by simp
  from evaluate_returns [OF this, of md "\<not> maximizing" "depth + 1"]
  obtain v where v: "evaluate md ?nb (\<not> maximizing) (depth + 1) = Inr v" by auto
  have "getBestMove (newPlayer md) ?nb (\<not> maximizing) (\<lambda>v u. u) () (depth + 1)
        = lift (newPlayer md) () (evaluate md ?nb (\<not> maximizing) (depth + 1))"
    using getBestMove_evaluate [of "depth + 1" "newPlayer md" ?nb "\<not> maximizing" "\<lambda>v u. u" "()"]
    by (simp add: newPlayer_def)
  then have "childValue md b maximizing depth index = v"
    using v by (simp add: childValue_def lift_def)
  then show ?thesis using v by simp
qed

lemma evaluate_children:
  assumes len: "length b = 9"
  shows "set ms \<subseteq> set (getAvailableMoves b) \<Longrightarrow>
    fold
      (\<lambda>index acc.
         case acc of
           Inl e \<Rightarrow> Inl e
         | Inr best \<Rightarrow>
             (case insert_board b (if \<not> maximizing then PlayerO else PlayerX) (int index) of
                Inl e \<Rightarrow> Inl e
              | Inr (ok, nextBoard) \<Rightarrow>
                  (case evaluate md nextBoard (\<not> maximizing) (depth + 1) of
                     Inl e \<Rightarrow> Inl e
                   | Inr nv \<Rightarrow>
                       Inr ((if \<not> maximizing then math_min else math_max) best nv))))
      ms (Inr best)
    = Inr (fold (\<lambda>i a. (if \<not> maximizing then math_min else math_max) a
                          (childValue md b maximizing depth i)) ms best)"
proof (induction ms arbitrary: best)
  case Nil
  then show ?case by simp
next
  case (Cons x xs)
  have x: "x \<in> set (getAvailableMoves b)" using Cons.prems by simp
  have xs: "set xs \<subseteq> set (getAvailableMoves b)" using Cons.prems by simp
  have ins: "insert_board b (if \<not> maximizing then PlayerO else PlayerX) (int x)
             = Inr (True, b[x := (if \<not> maximizing then PlayerO else PlayerX)])"
    using insert_board_nine [OF len x, of "if \<not> maximizing then PlayerO else PlayerX"] by simp
  note ev = childValue_evaluate [OF len, of md x maximizing depth]
  show ?case
    using Cons.IH [OF xs] ins ev by (cases maximizing) simp_all
qed

lemma getBestMove_running_best:
  assumes "0 < depth" "length b = 9" "\<not> finished (getFinishState b)" "int depth \<noteq> maxDepth q"
  shows "getBestMove q b maximizing callback u depth
         = Inr (fold (\<lambda>i a. (if \<not> maximizing then math_min else math_max) a
                              (childValue (maxDepth q) b maximizing depth i))
                  (getAvailableMoves b)
                  (if \<not> maximizing then Number 100 else Number (- 100)),
                q, u)"
proof -
  have "evaluate (maxDepth q) b maximizing depth
        = Inr (fold (\<lambda>i a. (if \<not> maximizing then math_min else math_max) a
                              (childValue (maxDepth q) b maximizing depth i))
                  (getAvailableMoves b)
                  (if \<not> maximizing then Number 100 else Number (- 100)))"
    using evaluate_children [OF assms(2) subset_refl, of maximizing "maxDepth q" depth]
      assms(3,4)
    by (simp add: evaluate.simps [of _ b])
  then show ?thesis
    using getBestMove_evaluate [OF assms(1), of q b maximizing callback u]
    by (simp add: lift_def)
qed

text \<open>
  C3, as stated for every board that is not finished, fails for a player with maximum
  depth 0: the root is then a leaf of the search, the call at depth 0 returns the score
  0, the tally stays empty, and 0 is none of the available moves 2, 3, 4, 5, 7.
\<close>

theorem root_at_depth_cap_returns_score:
  "getBestMove (newPlayer 0) [PlayerX, PlayerO, Empty, Empty, Empty, Empty, PlayerO, Empty, PlayerX]
     True logCall [] 0
   = Inr (Number 0, newPlayer 0, [])
   \<and> \<not> finished (getFinishState
          [PlayerX, PlayerO, Empty, Empty, Empty, Empty, PlayerO, Empty, PlayerX])
   \<and> getAvailableMoves [PlayerX, PlayerO, Empty, Empty, Empty, Empty, PlayerO, Empty, PlayerX]
     = [2, 3, 4, 5, 7]
   \<and> nodesMap (newPlayer 0) (Number 0) = None"
proof -
  let ?b = "[PlayerX, PlayerO, Empty, Empty, Empty, Empty, PlayerO, Empty, PlayerX]"
  have fs: "getFinishState ?b = \<lparr>winnerPositions = None, winner = None, finished = False\<rparr>"
    by (simp add: getFinishState_def isEmpty_def isFull_def calculateGameState_def cellAt_def
          WINNER_POSITIONS_def)
  have run: "getBestMove (newPlayer 0) ?b True logCall [] 0 = Inr (Number 0, newPlayer 0, [])"
    using fs by (simp add: getBestMove.simps heuristic_def newPlayer_def)
  have moves: "getAvailableMoves ?b = [2, 3, 4, 5, 7]" by code_simp
  show ?thesis using run fs moves by (simp add: newPlayer_def)
qed

lemma root_first_tied:
  assumes "length b = 9" and "\<not> finished (getFinishState b)" and "maxDepth p \<noteq> 0"
  shows "\<exists>chosen rest p'.
      getBestMove p b maximizing callback w 0
        = Inr (Number (int chosen), p', callback (Number (int chosen)) w)
    \<and> nodesMap p' (bestScore (maxDepth p) b maximizing) = bucket (chosen # rest)
    \<and> chosen # rest
        = filter (\<lambda>i. nodeValueOf (maxDepth p) b maximizing i = bestScore (maxDepth p) b maximizing)
            (getAvailableMoves b)
    \<and> chosen \<in> set (getAvailableMoves b)
    \<and> (\<forall>j \<in> set (getAvailableMoves b).
          nodeValueOf (maxDepth p) b maximizing j = bestScore (maxDepth p) b maximizing
          \<longrightarrow> chosen \<le> j)
    \<and> getBestMove p' b maximizing callback w 0 = getBestMove p b maximizing callback w 0
    \<and> (\<forall>i \<in> set (getAvailableMoves b).
          (\<exists>k. nodeValueOf (maxDepth p) b maximizing i = Number k)
          \<and> (\<forall>(q::Player) u. maxDepth q = maxDepth p \<longrightarrow>
                getBestMove q (b[i := (if \<not> maximizing then PlayerO else PlayerX)])
                  (\<not> maximizing) callback u 1
                = Inr (nodeValueOf (maxDepth p) b maximizing i, q, u)))"
proof -
  let ?md = "maxDepth p"
  let ?tied = "tiedMoves ?md b maximizing"
  let ?p' = "p\<lparr>nodesMap := (\<lambda>k. bucket (filter (\<lambda>i. nodeValueOf ?md b maximizing i = k)
                                               (getAvailableMoves b)))\<rparr>"
  obtain chosen rest where tied: "?tied = chosen # rest"
    using tiedMoves_nonempty [OF assms(1,2), of ?md maximizing] by (cases ?tied) auto
  then have flt: "filter (\<lambda>i. nodeValueOf ?md b maximizing i = bestScore ?md b maximizing)
                    (getAvailableMoves b) = chosen # rest"
    by (simp add: tiedMoves_def)
  have res: "getBestMove p b maximizing callback w 0
        = Inr (Number (int chosen), ?p', callback (Number (int chosen)) w)"
    using root_result [OF assms, of maximizing callback w] tied by simp
  have bk: "nodesMap ?p' (bestScore ?md b maximizing) = bucket (chosen # rest)"
    using flt by simp
  have "chosen \<in> set (filter (\<lambda>i. nodeValueOf ?md b maximizing i = bestScore ?md b maximizing)
                    (getAvailableMoves b))"
    using flt by simp
  then have mem: "chosen \<in> set (getAvailableMoves b)" by simp
  have least: "\<forall>j \<in> set (getAvailableMoves b).
          nodeValueOf ?md b maximizing j = bestScore ?md b maximizing \<longrightarrow> chosen \<le> j"
    using hd_filter_least [OF sorted_available flt] by blast
  have again: "getBestMove ?p' b maximizing callback w 0 = getBestMove p b maximizing callback w 0"
    by (rule root_only_maxDepth) simp
  have kids: "\<forall>i \<in> set (getAvailableMoves b).
          (\<exists>k. nodeValueOf ?md b maximizing i = Number k)
          \<and> (\<forall>(q::Player) u. maxDepth q = ?md \<longrightarrow>
                getBestMove q (b[i := (if \<not> maximizing then PlayerO else PlayerX)])
                  (\<not> maximizing) callback u 1
                = Inr (nodeValueOf ?md b maximizing i, q, u))"
  proof (intro ballI conjI allI impI)
    fix i assume i: "i \<in> set (getAvailableMoves b)"
    show "\<exists>k. nodeValueOf ?md b maximizing i = Number k"
      using nodeValueOf_range [OF assms(1) i, of ?md maximizing] by auto
    fix q :: Player and u assume q: "maxDepth q = ?md"
    show "getBestMove q (b[i := (if \<not> maximizing then PlayerO else PlayerX)])
                  (\<not> maximizing) callback u 1
                = Inr (nodeValueOf ?md b maximizing i, q, u)"
      using child_call [OF assms(1) i q, of maximizing callback u] by simp
  qed
  show ?thesis
    apply (rule exI [of _ chosen], rule exI [of _ rest], rule exI [of _ ?p'])
    apply (intro conjI)
          apply (rule res)
         apply (rule bk)
        apply (rule flt [symmetric])
       apply (rule mem)
      apply (rule least)
     apply (rule again)
    apply (rule kids)
    done
qed

text \<open>
  C3, amended: on a board of nine cells that is not finished, with a maximum depth
  other than 0, the call at depth 0 returns the first index of the tally's bucket for
  the final best score. That bucket holds, in the order of insertion, the available
  moves whose score equals the best score, so the index returned is the lowest of
  them. A repeated call on the player as the first call left it returns the same. A
  call below the root returns the numeric best score and nothing else: at every depth
  above 0, on a board of nine cells that is not a leaf, it returns the running best,
  that is the maximum (for X) or minimum (for O) of the numbers its own recursive
  calls return for the available moves in turn, starting from -100 or 100, and it
  leaves the player and the caller's state as they were; on every board it returns
  what \<open>evaluate\<close> computes.
\<close>

theorem root_returns_first_tied_move:
  assumes "length b = 9" and "\<not> finished (getFinishState b)" and "maxDepth p \<noteq> 0"
  shows "(\<exists>chosen rest p'.
      getBestMove p b maximizing callback w 0
        = Inr (Number (int chosen), p', callback (Number (int chosen)) w)
    \<and> nodesMap p' (bestScore (maxDepth p) b maximizing) = bucket (chosen # rest)
    \<and> chosen # rest
        = filter (\<lambda>i. nodeValueOf (maxDepth p) b maximizing i = bestScore (maxDepth p) b maximizing)
            (getAvailableMoves b)
    \<and> chosen \<in> set (getAvailableMoves b)
    \<and> (\<forall>j \<in> set (getAvailableMoves b).
          nodeValueOf (maxDepth p) b maximizing j = bestScore (maxDepth p) b maximizing
          \<longrightarrow> chosen \<le> j)
    \<and> getBestMove p' b maximizing callback w 0 = getBestMove p b maximizing callback w 0
    \<and> (\<forall>i \<in> set (getAvailableMoves b).
          (\<exists>k. nodeValueOf (maxDepth p) b maximizing i = Number k)
          \<and> (\<forall>(q::Player) u. maxDepth q = maxDepth p \<longrightarrow>
                getBestMove q (b[i := (if \<not> maximizing then PlayerO else PlayerX)])
                  (\<not> maximizing) callback u 1
                = Inr (nodeValueOf (maxDepth p) b maximizing i, q, u))))
    \<and> (\<forall>i. nodeValueOf (maxDepth p) b maximizing i = childValue (maxDepth p) b maximizing 0 i)
    \<and> (\<forall>depth>0. \<forall>(q::Player) u b' maximizing'.
          length b' = 9 \<and> \<not> finished (getFinishState b') \<and> int depth \<noteq> maxDepth q \<longrightarrow>
          getBestMove q b' maximizing' callback u depth
          = Inr (fold (\<lambda>i a. (if \<not> maximizing' then math_min else math_max) a
                               (childValue (maxDepth q) b' maximizing' depth i))
                   (getAvailableMoves b')
                   (if \<not> maximizing' then Number 100 else Number (- 100)),
                 q, u))
    \<and> (\<forall>depth>0. \<forall>(q::Player) u b' maximizing'.
          getBestMove q b' maximizing' callback u depth
          = (case evaluate (maxDepth q) b' maximizing' depth of
               Inl e \<Rightarrow> Inl e
             | Inr v \<Rightarrow> Inr (v, q, u)))"
proof (intro conjI allI impI)
  show "\<exists>chosen rest p'.
      getBestMove p b maximizing callback w 0
        = Inr (Number (int chosen), p', callback (Number (int chosen)) w)
    \<and> nodesMap p' (bestScore (maxDepth p) b maximizing) = bucket (chosen # rest)
    \<and> chosen # rest
        = filter (\<lambda>i. nodeValueOf (maxDepth p) b maximizing i = bestScore (maxDepth p) b maximizing)
            (getAvailableMoves b)
    \<and> chosen \<in> set (getAvailableMoves b)
    \<and> (\<forall>j \<in> set (getAvailableMoves b).
          nodeValueOf (maxDepth p) b maximizing j = bestScore (maxDepth p) b maximizing
          \<longrightarrow> chosen \<le> j)
    \<and> getBestMove p' b maximizing callback w 0 = getBestMove p b maximizing callback w 0
    \<and> (\<forall>i \<in> set (getAvailableMoves b).
          (\<exists>k. nodeValueOf (maxDepth p) b maximizing i = Number k)
          \<and> (\<forall>(q::Player) u. maxDepth q = maxDepth p \<longrightarrow>
                getBestMove q (b[i := (if \<not> maximizing then PlayerO else PlayerX)])
                  (\<not> maximizing) callback u 1
                = Inr (nodeValueOf (maxDepth p) b maximizing i, q, u)))"
    by (rule root_first_tied [OF assms])
next
  fix i
  show "nodeValueOf (maxDepth p) b maximizing i = childValue (maxDepth p) b maximizing 0 i"
    by (rule nodeValueOf_childValue)
next
  fix depth :: nat and q :: Player and u b' maximizing'
  assume "0 < depth"
    and "length b' = 9 \<and> \<not> finished (getFinishState b') \<and> int depth \<noteq> maxDepth q"
  then show "getBestMove q b' maximizing' callback u depth
          = Inr (fold (\<lambda>i a. (if \<not> maximizing' then math_min else math_max) a
                               (childValue (maxDepth q) b' maximizing' depth i))
                   (getAvailableMoves b')
                   (if \<not> maximizing' then Number 100 else Number (- 100)),
                 q, u)"
    using getBestMove_running_best [of depth b' q maximizing' callback u] by simp
next
  fix depth :: nat and q :: Player and u b' maximizing'
  assume "0 < depth"
  then show "getBestMove q b' maximizing' callback u depth
          = (case evaluate (maxDepth q) b' maximizing' depth of
               Inl e \<Rightarrow> Inl e
             | Inr v \<Rightarrow> Inr (v, q, u))"
    using getBestMove_evaluate [of depth q b' maximizing' callback u] by (simp add: lift_def)
qed

theorem root_returns_first_tied_move_witness:
  "(\<exists>p'. getBestMove (newPlayer (- 1))
            [PlayerX, PlayerX, Empty, PlayerX, PlayerO, PlayerO, Empty, Empty, PlayerO]
            True logCall [] 0
          = Inr (Number 2, p', [Number 2])
        \<and> nodesMap p' (Number 99) = Some (Joined ''2,6''))
   \<and> getAvailableMoves [PlayerX, PlayerX, Empty, PlayerX, PlayerO, PlayerO, Empty, Empty, PlayerO]
     = [2, 6, 7]
   \<and> getBestMove (newPlayer (- 1))
        [PlayerX, PlayerX, Empty, PlayerX, PlayerO, PlayerO, Empty, PlayerX, PlayerO]
        False logCall [] 1
      = Inr (Number (- 98), newPlayer (- 1), [])"
proof -
  let ?b = "[PlayerX, PlayerX, Empty, PlayerX, PlayerO, PlayerO, Empty, Empty, PlayerO]"
  let ?c = "[PlayerX, PlayerX, Empty, PlayerX, PlayerO, PlayerO, Empty, PlayerX, PlayerO]"
  let ?p = "newPlayer (- 1)"
  have len: "length ?b = 9" by simp
  have nf: "\<not> finished (getFinishState ?b)"
    by (simp add: getFinishState_def isEmpty_def isFull_def calculateGameState_def cellAt_def
          WINNER_POSITIONS_def)
  have md: "maxDepth ?p \<noteq> 0" by (simp add: newPlayer_def)
  have best: "bestScore (maxDepth ?p) ?b True = Number 99" by code_simp
  have tied: "filter (\<lambda>i. nodeValueOf (maxDepth ?p) ?b True i = bestScore (maxDepth ?p) ?b True)
                (getAvailableMoves ?b) = [2, 6]"
    by code_simp
  have moves: "getAvailableMoves ?b = [2, 6, 7]" by code_simp
  have bk: "bucket [2, 6] = Some (Joined ''2,6'')" by code_simp
  note inst = root_returns_first_tied_move [OF len nf md, of True logCall "[]"]
  from inst [THEN conjunct1]
  obtain chosen rest p' where
    res: "getBestMove ?p ?b True logCall [] 0
          = Inr (Number (int chosen), p', logCall (Number (int chosen)) [])"
    and bucket: "nodesMap p' (bestScore (maxDepth ?p) ?b True) = bucket (chosen # rest)"
    and flt: "chosen # rest
        = filter (\<lambda>i. nodeValueOf (maxDepth ?p) ?b True i = bestScore (maxDepth ?p) ?b True)
            (getAvailableMoves ?b)"
    by blast
  from flt tied have c: "chosen = 2" "rest = [6]" by simp_all
  have first: "\<exists>p'. getBestMove ?p ?b True logCall [] 0 = Inr (Number 2, p', [Number 2])
        \<and> nodesMap p' (Number 99) = Some (Joined ''2,6'')"
    using res bucket c best bk by (simp add: logCall_def)
  have cnf: "length ?c = 9 \<and> \<not> finished (getFinishState ?c) \<and> int 1 \<noteq> maxDepth ?p"
    by (simp add: getFinishState_def isEmpty_def isFull_def calculateGameState_def cellAt_def
          WINNER_POSITIONS_def newPlayer_def)
  have val: "fold (\<lambda>i a. (if \<not> False then math_min else math_max) a
                               (childValue (maxDepth ?p) ?c False 1 i))
                   (getAvailableMoves ?c)
                   (if \<not> False then Number 100 else Number (- 100)) = Number (- 98)"
    by code_simp
  have "getBestMove ?p ?c False logCall [] 1
          = Inr (fold (\<lambda>i a. (if \<not> False then math_min else math_max) a
                               (childValue (maxDepth ?p) ?c False 1 i))
                   (getAvailableMoves ?c)
                   (if \<not> False then Number 100 else Number (- 100)),
                 ?p, [])"
    using inst [THEN conjunct2, THEN conjunct2, THEN conjunct1, rule_format, of 1 ?c ?p False "[]"]
      cnf by simp
  then have second: "getBestMove ?p ?c False logCall [] 1 = Inr (Number (- 98), ?p, [])"
    unfolding val .
  show ?thesis using first moves second by simp
qed

subsection \<open>The callback\<close>

text \<open>
  C7, as stated for every board, fails on a finished board: the top row is complete,
  the call at depth 0 returns the leaf score 100, which is no move index, and the log
  is empty after the call, so the callback has not been invoked.
\<close>

theorem callback_skipped_on_finished_board:
  "getBestMove (newPlayer (- 1))
     [PlayerX, PlayerX, PlayerX, PlayerO, PlayerO, Empty, Empty, Empty, Empty] True logCall [] 0
   = Inr (Number 100, newPlayer (- 1), [])"
proof -
  have "getFinishState [PlayerX, PlayerX, PlayerX, PlayerO, PlayerO, Empty, Empty, Empty, Empty]
       = \<lparr>winnerPositions = Some (0, 1, 2), winner = Some (Sym PlayerX), finished = True\<rparr>"
    by (simp add: getFinishState_def isEmpty_def isFull_def calculateGameState_def cellAt_def
          WINNER_POSITIONS_def)
  then show ?thesis
    by (simp add: getBestMove.simps heuristic_def newPlayer_def)
qed

text \<open>
  C7, amended: on a board of nine cells that is not finished, with a maximum depth
  other than 0, the call at depth 0 invokes the callback exactly once, with the chosen
  move index, and returns that index: the caller's state after the call is the
  callback applied once to the state before, and a callback that logs its argument
  adds the one entry to the log. On a finished board, or with maximum depth 0, the
  call returns the leaf score and does not invoke the callback.
\<close>

theorem root_callback_once:
  assumes "length b = 9"
  shows "(\<not> finished (getFinishState b) \<and> maxDepth p \<noteq> 0 \<longrightarrow>
           (\<exists>chosen p'. chosen \<in> set (getAvailableMoves b)
              \<and> getBestMove p b maximizing callback w 0
                  = Inr (Number (int chosen), p', callback (Number (int chosen)) w)
              \<and> getBestMove p b maximizing logCall log 0
                  = Inr (Number (int chosen), p', log @ [Number (int chosen)])))
       \<and> (finished (getFinishState b) \<or> maxDepth p = 0 \<longrightarrow>
            getBestMove p b maximizing callback w 0
            = Inr (heuristic (getFinishState b) 0, p\<lparr>nodesMap := Map.empty\<rparr>, w))"
proof (intro conjI impI)
  assume a: "\<not> finished (getFinishState b) \<and> maxDepth p \<noteq> 0"
  let ?chosen = "hd (tiedMoves (maxDepth p) b maximizing)"
  let ?p' = "p\<lparr>nodesMap := (\<lambda>k. bucket (filter (\<lambda>i. nodeValueOf (maxDepth p) b maximizing i = k)
                                               (getAvailableMoves b)))\<rparr>"
  have ne: "tiedMoves (maxDepth p) b maximizing \<noteq> []"
    using tiedMoves_nonempty [OF assms] a by simp
  then have "?chosen \<in> set (tiedMoves (maxDepth p) b maximizing)" by simp
  then have mem: "?chosen \<in> set (getAvailableMoves b)" by (simp add: tiedMoves_def)
  have r1: "getBestMove p b maximizing callback w 0
                  = Inr (Number (int ?chosen), ?p', callback (Number (int ?chosen)) w)"
    using root_result [OF assms, of p maximizing callback w] a by simp
  have r2: "getBestMove p b maximizing logCall log 0
                  = Inr (Number (int ?chosen), ?p', log @ [Number (int ?chosen)])"
    using root_result [OF assms, of p maximizing logCall log] a by (simp add: logCall_def)
  show "\<exists>chosen p'. chosen \<in> set (getAvailableMoves b)
              \<and> getBestMove p b maximizing callback w 0
                  = Inr (Number (int chosen), p', callback (Number (int chosen)) w)
              \<and> getBestMove p b maximizing logCall log 0
                  = Inr (Number (int chosen), p', log @ [Number (int chosen)])"
    apply (rule exI [of _ ?chosen], rule exI [of _ ?p'])
    apply (intro conjI)
      apply (rule mem)
     apply (rule r1)
    apply (rule r2)
    done
next
  assume "finished (getFinishState b) \<or> maxDepth p = 0"
  then show "getBestMove p b maximizing callback w 0
            = Inr (heuristic (getFinishState b) 0, p\<lparr>nodesMap := Map.empty\<rparr>, w)"
    by (auto simp: getBestMove.simps)
qed

theorem root_callback_once_witness:
  "(\<exists>p'. getBestMove (newPlayer (- 1))
            [PlayerX, PlayerX, Empty, PlayerO, PlayerO, Empty, Empty, Empty, Empty]
            True logCall [Number 7] 0
          = Inr (Number 2, p', [Number 7, Number 2]))
   \<and> getBestMove (newPlayer (- 1))
        [PlayerX, PlayerO, PlayerX, PlayerX, PlayerO, PlayerO, PlayerO, PlayerX, PlayerX]
        True logCall [Number 7] 0
      = Inr (Number 0, newPlayer (- 1), [Number 7])"
proof -
  let ?b = "[PlayerX, PlayerX, Empty, PlayerO, PlayerO, Empty, Empty, Empty, Empty]"
  let ?d = "[PlayerX, PlayerO, PlayerX, PlayerX, PlayerO, PlayerO, PlayerO, PlayerX, PlayerX]"
  let ?p = "newPlayer (- 1)"
  have nf: "\<not> finished (getFinishState ?b) \<and> maxDepth ?p \<noteq> 0"
    by (simp add: getFinishState_def isEmpty_def isFull_def calculateGameState_def cellAt_def
          WINNER_POSITIONS_def newPlayer_def)
  have fd: "getFinishState ?d = \<lparr>winnerPositions = None, winner = Some DRAW, finished = True\<rparr>"
    by (simp add: getFinishState_def isEmpty_def isFull_def)
  have val: "case getBestMove ?p ?b True logCall [Number 7] 0 of
               Inr (v, p', log) \<Rightarrow> v = Number 2 | Inl e \<Rightarrow> False"
    by code_simp
  from root_callback_once [of ?b ?p True logCall "[Number 7]" "[Number 7]", THEN conjunct1] nf
  obtain chosen p' where
    "getBestMove ?p ?b True logCall [Number 7] 0
       = Inr (Number (int chosen), p', [Number 7] @ [Number (int chosen)])"
    by auto
  with val have first: "\<exists>p'. getBestMove ?p ?b True logCall [Number 7] 0
          = Inr (Number 2, p', [Number 7, Number 2])"
    by auto
  have second: "getBestMove ?p ?d True logCall [Number 7] 0 = Inr (Number 0, ?p, [Number 7])"
    using root_callback_once [of ?d ?p True logCall "[Number 7]" "[Number 7]", THEN conjunct2] fd
    by (simp add: heuristic_def newPlayer_def)
  show ?thesis using first second by simp
qed

section \<open>The store model and the input board\<close>

text \<open>
  With enough fuel the search on references comes back, with the result of the search
  on values, and with a store that is the old one followed by the arrays allocated on
  the way: no array that existed before the call has been written.
\<close>

lemma arrayAt_append: "a < length s \<Longrightarrow> arrayAt (s @ ext) a = arrayAt s a"
  by (simp add: arrayAt_def nth_append)

lemma arrayAt_fresh: "arrayAt (s @ [cells]) (length s) = cells"
  by (simp add: arrayAt_def)

lemma update_fresh: "(s @ [old])[length s := cells] = s @ [cells]"
  by simp

lemma minimax_ref_simulates:
  assumes IH: "\<And>(p :: Player) s board maximizing (w :: 'w) depth.
                  board < length s \<Longrightarrow> length (getAvailableMoves (arrayAt s board)) < fuel \<Longrightarrow>
                  \<exists>ext. getBestMove_ref fuel p s board maximizing callback w depth
                        = Some (getBestMove p (arrayAt s board) maximizing callback w depth, s @ ext)"
    and board: "board < length s"
    and moves: "length (getAvailableMoves (arrayAt s board)) < Suc fuel"
  shows "\<exists>ext. minimax_ref (Suc fuel) p maximizing s board callback w depth
               = Some (minimax p maximizing (arrayAt s board) callback w depth, s @ ext)"
proof -
  let ?cells0 = "arrayAt s board"
  let ?cv = "if \<not> maximizing then PlayerO else PlayerX"
  let ?op = "if \<not> maximizing then math_min else math_max"
  let ?seed = "if \<not> maximizing then Number 100 else Number (- 100)"
  let ?f = "\<lambda>index acc.
              case acc of
                Inl e \<Rightarrow> Inl e
              | Inr (best, p1, w1) \<Rightarrow>
                  (case insert_board ?cells0 ?cv (int index) of
                     Inl e \<Rightarrow> Inl e
                   | Inr (ok, nextBoard) \<Rightarrow>
                       (case getBestMove p1 nextBoard (\<not> maximizing) callback w1 (depth + 1) of
                          Inl e \<Rightarrow> Inl e
                        | Inr (nodeValue, p2, w2) \<Rightarrow>
                            Inr (?op best nodeValue,
                                 (if depth = 0
                                  then p2\<lparr>nodesMap := (nodesMap p2)(nodeValue \<mapsto>
                                         (case nodesMap p2 nodeValue of
                                            Some mv \<Rightarrow> Joined (render mv @ '','' @ toString index)
                                          | None \<Rightarrow> Index index))\<rparr>
                                  else p2),
                                 w2)))"
  let ?g = "\<lambda>index acc.
              case acc of
                None \<Rightarrow> None
              | Some (Inl e, s1) \<Rightarrow> Some (Inl e, s1)
              | Some (Inr (best, p1, w1), s1) \<Rightarrow>
                  (case newBoard s1 (arrayAt s1 board) of
                     (nextBoard, s2) \<Rightarrow>
                  (case insert_ref s2 nextBoard ?cv (int index) of
                     (Inl e, s3) \<Rightarrow> Some (Inl e, s3)
                   | (Inr ok, s3) \<Rightarrow>
                       (case getBestMove_ref fuel p1 s3 nextBoard (\<not> maximizing) callback w1 (depth + 1) of
                          None \<Rightarrow> None
                        | Some (Inl e, s4) \<Rightarrow> Some (Inl e, s4)
                        | Some (Inr (nodeValue, p2, w2), s4) \<Rightarrow>
                            Some (Inr (?op best nodeValue,
                                 (if depth = 0
                                  then p2\<lparr>nodesMap := (nodesMap p2)(nodeValue \<mapsto>
                                         (case nodesMap p2 nodeValue of
                                            Some mv \<Rightarrow> Joined (render mv @ '','' @ toString index)
                                          | None \<Rightarrow> Index index))\<rparr>
                                  else p2),
                                 w2), s4))))"
  let ?R = "\<lambda>c c'. \<exists>ext. c = Some (c', s @ ext)"
  have step: "?R (?g x c) (?f x c')" if x: "x \<in> set (getAvailableMoves ?cells0)" and r: "?R c c'"
    for x c c'
  proof -
    from r obtain s1 ext where c: "c = Some (c', s1)" and s1: "s1 = s @ ext" by auto
    show ?thesis
    proof (cases c')
      case (Inl e)
      then show ?thesis using c s1 by simp
    next
      case (Inr acc)
      obtain best p1 w1 where acc: "acc = (best, p1, w1)" by (cases acc) auto
      have here: "arrayAt s1 board = ?cells0" unfolding s1 using board by (rule arrayAt_append)
      have nb: "newBoard s1 (arrayAt s1 board) = (length s1, s1 @ [?cells0])"
        by (simp add: newBoard_def here)
      show ?thesis
      proof (cases "insert_board ?cells0 ?cv (int x)")
        case (Inl e)
        then have "insert_ref (s1 @ [?cells0]) (length s1) ?cv (int x)
                   = (Inl e, s1 @ [?cells0])"
          by (simp add: insert_ref_def arrayAt_fresh)
        then have g: "?g x c = Some (Inl e, s1 @ [?cells0])"
          using c Inr acc nb by simp
        have f: "?f x c' = Inl e" using Inr acc Inl by simp
        have eq: "s1 @ [?cells0] = s @ (ext @ [?cells0])" using s1 by simp
        show ?thesis unfolding g f eq by (rule exI, rule refl)
      next
        case ins: (Inr res)
        obtain ok cells where res: "res = (ok, cells)" by (cases res) auto
        let ?s3 = "s1 @ [cells]"
        have iref: "insert_ref (s1 @ [?cells0]) (length s1) ?cv (int x) = (Inr ok, ?s3)"
          using ins res by (simp add: insert_ref_def arrayAt_fresh)
        have at: "arrayAt ?s3 (length s1) = cells" by (rule arrayAt_fresh)
        have fewer: "length (getAvailableMoves cells) < fuel"
          using insert_board_fewer_moves [OF x, of ?cv ok cells] ins res moves by simp
        have "length s1 < length ?s3" by simp
        from IH [OF this, of p1 "\<not> maximizing" w1 "depth + 1"] fewer at
        obtain ext' where call:
          "getBestMove_ref fuel p1 ?s3 (length s1) (\<not> maximizing) callback w1 (depth + 1)
           = Some (getBestMove p1 cells (\<not> maximizing) callback w1 (depth + 1), ?s3 @ ext')"
          by auto
        have s4: "?s3 @ ext' = s @ (ext @ [cells] @ ext')" using s1 by simp
        show ?thesis
        proof (cases "getBestMove p1 cells (\<not> maximizing) callback w1 (depth + 1)")
          case (Inl e)
          then have g: "?g x c = Some (Inl e, ?s3 @ ext')"
            using c Inr acc nb iref call by simp
          have f: "?f x c' = Inl e" using \<open>c' = Inr acc\<close> acc ins res Inl by simp
          show ?thesis unfolding g f s4 by (rule exI, rule refl)
        next
          case child: (Inr out)
          obtain nv p2 w2 where out: "out = (nv, p2, w2)" by (cases out) auto
          let ?new = "Inr (?op best nv,
                                 (if depth = 0
                                  then p2\<lparr>nodesMap := (nodesMap p2)(nv \<mapsto>
                                         (case nodesMap p2 nv of
                                            Some mv \<Rightarrow> Joined (render mv @ '','' @ toString x)
                                          | None \<Rightarrow> Index x))\<rparr>
                                  else p2),
                                 w2)"
          have g: "?g x c = Some (?new, ?s3 @ ext')"
            using c Inr acc nb iref call child out by simp
          have f: "?f x c' = ?new" using Inr acc ins res child out by simp
          show ?thesis unfolding g f s4 by (rule exI, rule refl)
        qed
      qed
    qed
  qed
  have start: "?R (Some (Inr (?seed, p, w), s)) (Inr (?seed, p, w))"
    by (rule exI [of _ "[]"]) simp
  have "?R (fold ?g (getAvailableMoves ?cells0) (Some (Inr (?seed, p, w), s)))
           (fold ?f (getAvailableMoves ?cells0) (Inr (?seed, p, w)))"
    by (rule fold_related [where R = ?R, OF start]) (rule step)
  then obtain ext where
    "fold ?g (getAvailableMoves ?cells0) (Some (Inr (?seed, p, w), s))
     = Some (fold ?f (getAvailableMoves ?cells0) (Inr (?seed, p, w)), s @ ext)"
    by auto
  then have "minimax_ref (Suc fuel) p maximizing s board callback w depth
               = Some (minimax p maximizing ?cells0 callback w depth, s @ ext)"
    by (simp add: minimax.simps minimax_ref.simps Let_def split: sum.splits prod.splits)
  then show ?thesis by (rule exI)
qed

lemma getBestMove_ref_simulates:
  "board < length s \<Longrightarrow> length (getAvailableMoves (arrayAt s board)) < fuel \<Longrightarrow>
     \<exists>ext. getBestMove_ref fuel p s board maximizing callback w depth
           = Some (getBestMove p (arrayAt s board) maximizing callback w depth, s @ ext)"
proof (induction fuel arbitrary: p s board maximizing w depth)
  case 0
  then show ?case by simp
next
  case (Suc fuel)
  let ?p1 = "if depth = 0 then p\<lparr>nodesMap := Map.empty\<rparr> else p"
  show ?case
  proof (cases "finished (getFinishState (arrayAt s board)) \<or> int depth = maxDepth ?p1")
    case True
    then have "getBestMove_ref (Suc fuel) p s board maximizing callback w depth
           = Some (getBestMove p (arrayAt s board) maximizing callback w depth, s @ [])"
      by (simp add: getBestMove_ref.simps getBestMove.simps Let_def)
    then show ?thesis by blast
  next
    case False
    from minimax_ref_simulates [of fuel callback board s ?p1 maximizing w depth, OF Suc.IH Suc.prems]
    obtain ext where
      "minimax_ref (Suc fuel) ?p1 maximizing s board callback w depth
       = Some (minimax ?p1 maximizing (arrayAt s board) callback w depth, s @ ext)"
      by blast
    then have "getBestMove_ref (Suc fuel) p s board maximizing callback w depth
           = Some (getBestMove p (arrayAt s board) maximizing callback w depth, s @ ext)"
      using False by (simp add: getBestMove_ref.simps getBestMove.simps Let_def)
    then show ?thesis by blast
  qed
qed

text \<open>
  C10: for every board in the store, either side, and any fuel above the number of
  the board's empty cells, \<open>getBestMove\<close> on the board's reference returns, and the
  array of the board passed to it holds after the call what it held before, as does
  every other array that existed before the call: \<open>insert\<close> is only ever applied to
  the fresh copies that \<open>minimax\<close> allocates. The result is the one of the search on
  values.
\<close>

theorem input_board_unchanged:
  assumes "board < length s" and "length (getAvailableMoves (arrayAt s board)) < fuel"
  shows "\<exists>r s'. getBestMove_ref fuel p s board maximizing callback w depth = Some (r, s')
           \<and> arrayAt s' board = arrayAt s board
           \<and> (\<forall>a<length s. arrayAt s' a = arrayAt s a)
           \<and> r = getBestMove p (arrayAt s board) maximizing callback w depth"
proof -
  from getBestMove_ref_simulates [OF assms, of p maximizing callback w depth]
  obtain ext where run:
    "getBestMove_ref fuel p s board maximizing callback w depth
     = Some (getBestMove p (arrayAt s board) maximizing callback w depth, s @ ext)"
    by blast
  have same: "\<forall>a<length s. arrayAt (s @ ext) a = arrayAt s a"
    by (simp add: arrayAt_append)
  then have "arrayAt (s @ ext) board = arrayAt s board" using assms(1) by simp
  with run same show ?thesis by blast
qed

theorem input_board_unchanged_witness:
  "\<exists>r s'. getBestMove_ref 4 (newPlayer (- 1))
             [[PlayerX, PlayerX, Empty, PlayerX, PlayerO, PlayerO, Empty, Empty, PlayerO]] 0
             True logCall [] 0 = Some (r, s')
          \<and> arrayAt s' 0 = [PlayerX, PlayerX, Empty, PlayerX, PlayerO, PlayerO, Empty, Empty, PlayerO]
          \<and> arrayAt s' 1 = [PlayerX, PlayerX, PlayerX, PlayerX, PlayerO, PlayerO, Empty, Empty, PlayerO]
          \<and> 1 < length s'"
proof -
  let ?b = "[PlayerX, PlayerX, Empty, PlayerX, PlayerO, PlayerO, Empty, Empty, PlayerO]"
  have addr: "0 < length [?b]" by simp
  have fuel: "length (getAvailableMoves (arrayAt [?b] 0)) < 4" by code_simp
  have at0: "arrayAt [?b] 0 = ?b" by (simp add: arrayAt_def)
  have copy: "case getBestMove_ref 4 (newPlayer (- 1)) [?b] 0 True logCall [] 0 of
                Some (r, s') \<Rightarrow>
                  arrayAt s' 1 = [PlayerX, PlayerX, PlayerX, PlayerX, PlayerO, PlayerO, Empty, Empty, PlayerO]
                  \<and> 1 < length s'
              | None \<Rightarrow> False"
    by code_simp
  from input_board_unchanged [OF addr fuel, of "newPlayer (- 1)" True logCall "[]" 0]
  obtain r s' where
    "getBestMove_ref 4 (newPlayer (- 1)) [?b] 0 True logCall [] 0 = Some (r, s')"
    and "arrayAt s' 0 = arrayAt [?b] 0"
    by blast
  then show ?thesis using copy at0 by auto
qed

end
